theory Spec2Isabelle
  imports Main "HOL-Library.AList" "HOL-Library.Char_ord" "HOL-Library.List_Lexorder"
begin

section \<open>Host values: strings, numbers, plain objects\<close>

text \<open>
  A JavaScript string is modelled as the list of its code units; only code units below 256
  are representable. Numbers are modelled as mathematical integers: logical counters are
  integers, and NaN, infinities and fractions are outside the model. A plain data object is
  the list of its own properties; methods are not data and are passed separately where the
  code calls one.
\<close>

datatype jsval =
    Undefined
  | Null
  | Bool bool
  | Num int
  | Str string
  | Obj "(string \<times> jsval) list"

datatype error =
    InvalidDotInput     \<comment> \<open>\<open>'Invalid dot input...'\<close>\<close>
  | InvalidDotFormat    \<comment> \<open>\<open>'Invalid dot format...'\<close>\<close>
  | CannotJoin          \<comment> \<open>\<open>'Cannot join these types'\<close>\<close>
  | PayloadError        \<comment> \<open>an error raised by a payload's own \<open>join\<close> method\<close>
  | TypeError           \<comment> \<open>a property read on \<open>undefined\<close>\<close>

subsection \<open>String comparison with \<open><\<close>\<close>

text \<open>The relational operator on two strings compares code units lexicographically.\<close>

fun js_lt :: "string \<Rightarrow> string \<Rightarrow> bool" where
  "js_lt [] [] = False"
| "js_lt [] (y # ys) = True"
| "js_lt (x # xs) [] = False"
| "js_lt (x # xs) (y # ys) =
     (if (of_char x :: nat) < of_char y then True
      else if (of_char y :: nat) < of_char x then False
      else js_lt xs ys)"

subsection \<open>\<open>String.prototype.split\<close> with a one-character separator\<close>

fun split_on :: "char \<Rightarrow> string \<Rightarrow> string list" where
  "split_on c [] = [[]]"
| "split_on c (x # xs) =
     (if x = c then [] # split_on c xs
      else (case split_on c xs of
              [] \<Rightarrow> [[x]]
            | p # ps \<Rightarrow> (x # p) # ps))"

subsection \<open>\<open>parseInt\<close> with no radix argument\<close>

definition is_ws :: "char \<Rightarrow> bool" where
  "is_ws c = ((of_char c :: nat) \<in> {9, 10, 11, 12, 13, 32, 160})"

definition digit_value :: "char \<Rightarrow> nat option" where
  "digit_value c =
     (let n = (of_char c :: nat) in
      if 48 \<le> n \<and> n \<le> 57 then Some (n - 48)
      else if 97 \<le> n \<and> n \<le> 122 then Some (n - 87)
      else if 65 \<le> n \<and> n \<le> 90 then Some (n - 55)
      else None)"

definition is_digit :: "nat \<Rightarrow> char \<Rightarrow> bool" where
  "is_digit R c = (case digit_value c of None \<Rightarrow> False | Some d \<Rightarrow> d < R)"

definition digits_value :: "nat \<Rightarrow> string \<Rightarrow> nat" where
  "digits_value R Z = foldl (\<lambda>acc c. acc * R + the (digit_value c)) 0 Z"

text \<open>
  \<open>parseInt\<close> skips leading white space, reads an optional sign, switches to radix 16 after
  a \<open>0x\<close> or \<open>0X\<close> prefix, and converts the longest prefix of digits; what follows that
  prefix is ignored. \<open>None\<close> stands for NaN (no digit at all).
\<close>

definition parseInt :: "string \<Rightarrow> int option" where
  "parseInt str =
     (let S = dropWhile is_ws str;
          sign = (if S \<noteq> [] \<and> hd S = CHR ''-'' then (- 1 :: int) else 1);
          S1 = (if S \<noteq> [] \<and> (hd S = CHR ''+'' \<or> hd S = CHR ''-'') then tl S else S);
          hex = (take 2 S1 = ''0x'' \<or> take 2 S1 = ''0X'');
          R = (if hex then 16 else 10);
          S2 = (if hex then drop 2 S1 else S1);
          Z = takeWhile (is_digit R) S2
      in if Z = [] then None else Some (sign * int (digits_value R Z)))"

subsection \<open>Number to string\<close>

definition digit_char :: "nat \<Rightarrow> char" where
  "digit_char n = ''0123456789'' ! n"

fun nat_toString :: "nat \<Rightarrow> string" where
  "nat_toString n =
     (if n < 10 then [digit_char n] else nat_toString (n div 10) @ [digit_char (n mod 10)])"

declare nat_toString.simps [simp del]

definition number_toString :: "int \<Rightarrow> string" where
  "number_toString n =
     (if n < 0 then CHR ''-'' # nat_toString (nat (- n)) else nat_toString (nat n))"

section \<open>Dot\<close>

datatype Dot = Dot (dot_id: string) (counter: int)

text \<open>The instance method \<open>toString\<close>: \<open>`${this.id}:${this.counter}`\<close>.\<close>

definition dot_toString :: "Dot \<Rightarrow> string" where
  "dot_toString d = dot_id d @ '':'' @ number_toString (counter d)"

text \<open>\<open>Dot.fromString\<close>; the argument is a string by its type.\<close>

definition fromString :: "string \<Rightarrow> error + Dot" where
  "fromString dotStr =
     (let parts = split_on CHR '':'' dotStr in
      if length parts \<noteq> 2 then Inl InvalidDotFormat
      else (let ident = parts ! 0; counterStr = parts ! 1 in
            case parseInt counterStr of
              None \<Rightarrow> Inl InvalidDotFormat
            | Some c \<Rightarrow> if ident = [] then Inl InvalidDotFormat else Inr (Dot ident c)))"

text \<open>
  The spec's wire form \<open>id:integer\<close>: a non-empty id without \<open>:\<close>, then \<open>:\<close>, then the decimal
  digits of an integer (an optional minus sign and at least one digit) and nothing else.
\<close>

definition is_decimal_integer :: "string \<Rightarrow> bool" where
  "is_decimal_integer s =
     (let ds = (if s \<noteq> [] \<and> hd s = CHR ''-'' then tl s else s)
      in ds \<noteq> [] \<and> (\<forall>c \<in> set ds. is_digit 10 c))"

definition id_integer_form :: "string \<Rightarrow> bool" where
  "id_integer_form s =
     (case split_on CHR '':'' s of
        [ident, cs] \<Rightarrow> ident \<noteq> [] \<and> is_decimal_integer cs
      | _ \<Rightarrow> False)"


subsection \<open>Coercions and comparison\<close>

text \<open>
  Where the code expects a dot it accepts a dot string, a \<open>Dot\<close> instance or an object
  carrying \<open>id\<close> and \<open>counter\<close>; the last two are one case here, a dot with a string id
  and an integer counter.
\<close>

datatype dot_input = DotString string | DotObject Dot

definition toDot :: "dot_input \<Rightarrow> error + Dot" where
  "toDot dot = (case dot of DotString s \<Rightarrow> fromString s | DotObject d \<Rightarrow> Inr d)"

definition toString_static :: "dot_input \<Rightarrow> error + string" where
  "toString_static dot =
     (case toDot dot of Inl e \<Rightarrow> Inl e | Inr d \<Rightarrow> Inr (dot_toString d))"

text \<open>
  \<open>Dot.compare\<close>. \<open>String.prototype.localeCompare\<close> depends on the host's locale and is a
  parameter \<open>lc\<close> of the model.
\<close>

definition compare :: "(string \<Rightarrow> string \<Rightarrow> int) \<Rightarrow> dot_input \<Rightarrow> dot_input \<Rightarrow> error + int" where
  "compare lc d1 d2 =
     (case toDot d1 of Inl e \<Rightarrow> Inl e | Inr dot1 \<Rightarrow>
      (case toDot d2 of Inl e \<Rightarrow> Inl e | Inr dot2 \<Rightarrow>
         if dot_id dot1 \<noteq> dot_id dot2 then Inr (lc (dot_id dot1) (dot_id dot2))
         else Inr (counter dot1 - counter dot2)))"

text \<open>Ordinal comparison of code units: what \<open>localeCompare\<close> yields on lower-case ASCII
  letters and digits, used for concrete runs.\<close>

definition ordinalCompare :: "string \<Rightarrow> string \<Rightarrow> int" where
  "ordinalCompare a b = (if js_lt a b then - 1 else if js_lt b a then 1 else 0)"

subsection \<open>Dot-like objects\<close>

definition get_prop :: "jsval \<Rightarrow> string \<Rightarrow> jsval" where
  "get_prop v k = (case v of Obj ps \<Rightarrow> (case map_of ps k of None \<Rightarrow> Undefined | Some x \<Rightarrow> x)
               | _ \<Rightarrow> Undefined)"

definition isDotLikeObject :: "jsval \<Rightarrow> bool" where
  "isDotLikeObject dot =
     ((case dot of Obj ps \<Rightarrow> True | Null \<Rightarrow> True | _ \<Rightarrow> False) \<and>
      dot \<noteq> Null \<and>
      get_prop dot ''id'' \<noteq> Undefined \<and>
      get_prop dot ''counter'' \<noteq> Undefined)"

text \<open>String conversion inside a template literal, for plain data.\<close>

definition js_ToString :: "jsval \<Rightarrow> string" where
  "js_ToString v =
     (case v of
        Undefined \<Rightarrow> ''undefined''
      | Null \<Rightarrow> ''null''
      | Bool b \<Rightarrow> (if b then ''true'' else ''false'')
      | Num n \<Rightarrow> number_toString n
      | Str s \<Rightarrow> s
      | Obj ps \<Rightarrow> ''[object Object]'')"

text \<open>\<open>Dot.toString(val)\<close> for an object that passed \<open>isDotLikeObject\<close>: a new \<open>Dot\<close> of its
  \<open>id\<close> and \<open>counter\<close>, rendered by the template literal.\<close>

definition dotLike_toString :: "jsval \<Rightarrow> string" where
  "dotLike_toString val = js_ToString (get_prop val ''id'') @ '':'' @ js_ToString (get_prop val ''counter'')"

section \<open>DotContext\<close>

text \<open>
  A \<open>Map\<close> is an association list in insertion order (\<open>get\<close> is \<open>map_of\<close>, \<open>set\<close> is
  \<open>AList.update\<close>, \<open>delete\<close> is \<open>AList.delete\<close>); a \<open>Set\<close> is a list in insertion order.
\<close>

record DotContext =
  compactCausalContext :: "(string \<times> int) list"
  dotCloud :: "string list"

definition Set_add :: "'a \<Rightarrow> 'a list \<Rightarrow> 'a list" where
  "Set_add x xs = (if x \<in> set xs then xs else xs @ [x])"

definition Set_delete :: "'a \<Rightarrow> 'a list \<Rightarrow> 'a list" where
  "Set_delete x xs = removeAll x xs"

definition new_DotContext :: DotContext where
  "new_DotContext = \<lparr>compactCausalContext = [], dotCloud = []\<rparr>"

definition dotIn :: "DotContext \<Rightarrow> dot_input \<Rightarrow> error + bool" where
  "dotIn ctx dot =
     (case toDot dot of Inl e \<Rightarrow> Inl e | Inr dotObj \<Rightarrow>
        (case map_of (compactCausalContext ctx) (dot_id dotObj) of
           Some ccValue \<Rightarrow>
             if counter dotObj \<le> ccValue then Inr True
             else Inr (dot_toString dotObj \<in> set (dotCloud ctx))
         | None \<Rightarrow> Inr (dot_toString dotObj \<in> set (dotCloud ctx))))"

text \<open>
  One pass of the \<open>for\<close> loop inside \<open>compact\<close>: the cloud is only read, the compact causal
  context is updated on the way, and the strings to delete are collected.
\<close>

fun compact_pass ::
  "string list \<Rightarrow> (string \<times> int) list \<Rightarrow> string list \<Rightarrow> bool
     \<Rightarrow> error + ((string \<times> int) list \<times> string list \<times> bool)" where
  "compact_pass [] cc toDelete compactedCloud = Inr (cc, toDelete, compactedCloud)"
| "compact_pass (cloudDotStr # rest) cc toDelete compactedCloud =
     (case fromString cloudDotStr of
        Inl e \<Rightarrow> Inl e
      | Inr cloudDot \<Rightarrow>
         (case map_of cc (dot_id cloudDot) of
            None \<Rightarrow>
              if counter cloudDot = 1
              then compact_pass rest (AList.update (dot_id cloudDot) (counter cloudDot) cc)
                     (toDelete @ [cloudDotStr]) True
              else compact_pass rest cc toDelete compactedCloud
          | Some contextDotCounter \<Rightarrow>
              if counter cloudDot = contextDotCounter + 1
              then compact_pass rest (AList.update (dot_id cloudDot) (contextDotCounter + 1) cc)
                     (toDelete @ [cloudDotStr]) True
              else if counter cloudDot \<le> contextDotCounter
              then compact_pass rest cc (toDelete @ [cloudDotStr]) compactedCloud
              else compact_pass rest cc toDelete compactedCloud))"

function compact :: "DotContext \<Rightarrow> error + DotContext" where
  "compact ctx =
     (case compact_pass (dotCloud ctx) (compactCausalContext ctx) [] False of
        Inl e \<Rightarrow> Inl e
      | Inr (cc, toDelete, compactedCloud) \<Rightarrow>
          (let ctx' = \<lparr>compactCausalContext = cc,
                       dotCloud = fold Set_delete toDelete (dotCloud ctx)\<rparr>
           in if compactedCloud then compact ctx' else Inr ctx'))"
  by pat_completeness auto


termination compact
proof (relation "measure (\<lambda>ctx. length (dotCloud ctx))")
  show "wf (measure (\<lambda>ctx. length (dotCloud ctx)))" by simp
next
  fix ctx :: DotContext and x2 cc y toDelete compactedCloud ctx'
  assume a: "compact_pass (dotCloud ctx) (compactCausalContext ctx) [] False = Inr x2"
    "(cc, y) = x2" "(toDelete, compactedCloud) = y"
    "ctx' = \<lparr>compactCausalContext = cc, dotCloud = fold Set_delete toDelete (dotCloud ctx)\<rparr>"
    "compactedCloud"
  have progress: "compact_pass dc c0 del flag = Inr (c1, del', flag') \<Longrightarrow>
      (flag' \<longrightarrow> flag \<or> (\<exists>s \<in> set dc. s \<in> set del')) \<and> set del \<subseteq> set del'"
    for dc c0 del flag c1 del' flag'
  proof (induction dc arbitrary: c0 del flag)
    case Nil
    then show ?case by simp
  next
    case (Cons s rest)
    show ?case
      using Cons.prems
      by (auto split: sum.splits option.splits if_splits dest!: Cons.IH)
  qed
  have removed: "fold Set_delete del dc = filter (\<lambda>s. s \<notin> set del) dc"
    for del and dc :: "string list"
  proof (induction del arbitrary: dc)
    case Nil
    then show ?case by simp
  next
    case (Cons x del)
    have "Set_delete x dc = filter (\<lambda>s. s \<noteq> x) dc"
      unfolding Set_delete_def by (induction dc) auto
    then show ?case by (simp add: Cons.IH conj_commute)
  qed
  from a have "compact_pass (dotCloud ctx) (compactCausalContext ctx) [] False
               = Inr (cc, toDelete, compactedCloud)"
    by auto
  from progress[OF this] a(5)
  obtain s where "s \<in> set (dotCloud ctx)" "s \<in> set toDelete"
    by auto
  then have "length (filter (\<lambda>s. s \<notin> set toDelete) (dotCloud ctx)) < length (dotCloud ctx)"
    by (metis (mono_tags, lifting) length_filter_less)
  then show "(ctx', ctx) \<in> measure (\<lambda>ctx. length (dotCloud ctx))"
    using a(4) by (simp add: removed)
qed

declare compact.simps [simp del]

text \<open>\<open>makeDot\<close> returns the new dot and the updated context.\<close>

definition makeDot :: "DotContext \<Rightarrow> string \<Rightarrow> Dot \<times> DotContext" where
  "makeDot ctx ident =
     (let current = (case map_of (compactCausalContext ctx) ident of None \<Rightarrow> 0 | Some c \<Rightarrow> c);
          newCounter = current + 1
      in (Dot ident newCounter,
          ctx\<lparr>compactCausalContext := AList.update ident newCounter (compactCausalContext ctx)\<rparr>))"

definition insertDot :: "DotContext \<Rightarrow> dot_input \<Rightarrow> bool \<Rightarrow> error + DotContext" where
  "insertDot ctx dot compactNow =
     (case toString_static dot of
        Inl e \<Rightarrow> Inl e
      | Inr dotStr \<Rightarrow>
          (let ctx' = ctx\<lparr>dotCloud := Set_add dotStr (dotCloud ctx)\<rparr>
           in if compactNow then compact ctx' else Inr ctx'))"

text \<open>\<open>DotContext.join\<close> for two distinct context objects: the loop over the other
  context's compact causal context, the loop over its dot cloud, then \<open>compact\<close>.\<close>

definition join_cc_entry :: "string \<times> int \<Rightarrow> (string \<times> int) list \<Rightarrow> (string \<times> int) list" where
  "join_cc_entry e cc =
     (case e of (ident, val) \<Rightarrow>
        AList.update ident
          (case map_of cc ident of None \<Rightarrow> val | Some current \<Rightarrow> max current val) cc)"

definition join_cc :: "(string \<times> int) list \<Rightarrow> (string \<times> int) list \<Rightarrow> (string \<times> int) list" where
  "join_cc this_cc other_cc = fold join_cc_entry other_cc this_cc"

fun join_cloud :: "DotContext \<Rightarrow> string list \<Rightarrow> error + DotContext" where
  "join_cloud ctx [] = Inr ctx"
| "join_cloud ctx (dot # rest) =
     (case insertDot ctx (DotString dot) False of
        Inl e \<Rightarrow> Inl e
      | Inr ctx' \<Rightarrow> join_cloud ctx' rest)"

definition DotContext_join :: "DotContext \<Rightarrow> DotContext \<Rightarrow> error + DotContext" where
  "DotContext_join this otherContext =
     (case join_cloud
             (this\<lparr>compactCausalContext :=
                     join_cc (compactCausalContext this) (compactCausalContext otherContext)\<rparr>)
             (dotCloud otherContext) of
        Inl e \<Rightarrow> Inl e
      | Inr ctx' \<Rightarrow> compact ctx')"

section \<open>Delta helpers\<close>

definition truthy :: "jsval \<Rightarrow> bool" where
  "truthy v =
     (case v of Undefined \<Rightarrow> False | Null \<Rightarrow> False | Bool b \<Rightarrow> b | Num n \<Rightarrow> n \<noteq> 0
      | Str s \<Rightarrow> s \<noteq> [] | Obj ps \<Rightarrow> True)"

text \<open>
  A value's \<open>join\<close> method is code, not data: \<open>methods v\<close> is the function found at \<open>v.join\<close>
  when \<open>typeof v.join === 'function'\<close>, and \<open>None\<close> otherwise. The method receives the
  receiver and the argument and returns the receiver as it has mutated it, or raises. The
  copy \<open>res\<close> made with \<open>Object.create\<close> and \<open>Object.assign\<close> has the prototype and the own
  properties of \<open>left\<close>, so as data it is \<open>left\<close>.
\<close>

type_synonym join_methods = "jsval \<Rightarrow> (jsval \<Rightarrow> jsval \<Rightarrow> error + jsval) option"

definition DeltaHelpers_join :: "join_methods \<Rightarrow> jsval \<Rightarrow> jsval \<Rightarrow> error + jsval" where
  "DeltaHelpers_join methods left right =
     (case (left, right) of
        (Num a, Num b) \<Rightarrow> Inr (Num (max a b))
      | _ \<Rightarrow>
        if truthy left then
          (case methods left of
             Some join_method \<Rightarrow>
               (case join_method left right of Inl e \<Rightarrow> Inl e | Inr res \<Rightarrow> Inr res)
           | None \<Rightarrow> Inl CannotJoin)
        else Inl CannotJoin)"

section \<open>DotKernel\<close>

subsection \<open>Sorting the keys with \<open>Dot.compare\<close>\<close>

text \<open>
  \<open>Array.prototype.sort\<close> is stable. With fewer than two keys the comparator is not called;
  otherwise every key takes part in a comparison, and a comparison raises when a key does
  not parse.
\<close>

definition le_dots :: "(string \<Rightarrow> string \<Rightarrow> int) \<Rightarrow> string \<Rightarrow> string \<Rightarrow> bool" where
  "le_dots lc a b =
     (case compare lc (DotString a) (DotString b) of Inr c \<Rightarrow> c \<le> 0 | Inl e \<Rightarrow> True)"

fun insort_dots :: "(string \<Rightarrow> string \<Rightarrow> int) \<Rightarrow> string \<Rightarrow> string list \<Rightarrow> string list" where
  "insort_dots lc x [] = [x]"
| "insort_dots lc x (y # ys) =
     (if le_dots lc x y then x # y # ys else y # insort_dots lc x ys)"

definition sort_dots :: "(string \<Rightarrow> string \<Rightarrow> int) \<Rightarrow> string list \<Rightarrow> error + string list" where
  "sort_dots lc ks =
     (if length ks \<le> 1 then Inr ks
      else if \<exists>k \<in> set ks. isl (fromString k) then Inl InvalidDotFormat
      else Inr (foldr (insort_dots lc) ks []))"

subsection \<open>Merging the two sorted key arrays\<close>

definition Map_get :: "(string \<times> jsval) list \<Rightarrow> string \<Rightarrow> jsval" where
  "Map_get m k = (case map_of m k of None \<Rightarrow> Undefined | Some v \<Rightarrow> v)"

text \<open>
  The \<open>while\<close> loop of \<open>DotKernel.join\<close>. The two sorted key arrays are consumed from the
  front (the indices \<open>i\<close> and \<open>j\<close>); \<open>ds\<close> is \<open>this.dataStorage\<close>, \<open>thisCtx\<close> and
  \<open>otherCtx\<close> are the two shared contexts, \<open>otherDs\<close> is \<open>otherKernel.dataStorage\<close>. The first
  test compares the two key strings with \<open><\<close>, the second calls \<open>Dot.compare\<close>.
\<close>

fun join_loop ::
  "(string \<Rightarrow> string \<Rightarrow> int) \<Rightarrow> DotContext \<Rightarrow> DotContext \<Rightarrow> (string \<times> jsval) list
     \<Rightarrow> string list \<Rightarrow> string list \<Rightarrow> (string \<times> jsval) list \<Rightarrow> error + (string \<times> jsval) list" where
  "join_loop lc thisCtx otherCtx otherDs [] [] ds = Inr ds"
| "join_loop lc thisCtx otherCtx otherDs (thisDot # thisDots) [] ds =
     (case dotIn otherCtx (DotString thisDot) of
        Inl e \<Rightarrow> Inl e
      | Inr known \<Rightarrow>
          join_loop lc thisCtx otherCtx otherDs thisDots []
            (if known then AList.delete thisDot ds else ds))"
| "join_loop lc thisCtx otherCtx otherDs [] (otherDot # otherDots) ds =
     (case dotIn thisCtx (DotString otherDot) of
        Inl e \<Rightarrow> Inl e
      | Inr known \<Rightarrow>
          join_loop lc thisCtx otherCtx otherDs [] otherDots
            (if \<not> known then AList.update otherDot (Map_get otherDs otherDot) ds else ds))"
| "join_loop lc thisCtx otherCtx otherDs (thisDot # thisDots) (otherDot # otherDots) ds =
     (if js_lt thisDot otherDot then
        (case dotIn otherCtx (DotString thisDot) of
           Inl e \<Rightarrow> Inl e
         | Inr known \<Rightarrow>
             join_loop lc thisCtx otherCtx otherDs thisDots (otherDot # otherDots)
               (if known then AList.delete thisDot ds else ds))
      else
        (case compare lc (DotString otherDot) (DotString thisDot) of
           Inl e \<Rightarrow> Inl e
         | Inr c \<Rightarrow>
             if c < 0 then
               (case dotIn thisCtx (DotString otherDot) of
                  Inl e \<Rightarrow> Inl e
                | Inr known \<Rightarrow>
                    join_loop lc thisCtx otherCtx otherDs (thisDot # thisDots) otherDots
                      (if \<not> known then AList.update otherDot (Map_get otherDs otherDot) ds
                       else ds))
             else join_loop lc thisCtx otherCtx otherDs thisDots otherDots ds))"

text \<open>
  The loop of \<open>deepJoin\<close>: both tests compare strings with \<open><\<close>, and a dot held by both
  sides has its payloads joined when their JSON encodings differ. \<open>JSON.stringify\<close> is the
  parameter \<open>stringify\<close>.
\<close>

fun deepJoin_loop ::
  "(jsval \<Rightarrow> string option) \<Rightarrow> join_methods \<Rightarrow> DotContext \<Rightarrow> DotContext
     \<Rightarrow> (string \<times> jsval) list \<Rightarrow> string list \<Rightarrow> string list \<Rightarrow> (string \<times> jsval) list
     \<Rightarrow> error + (string \<times> jsval) list" where
  "deepJoin_loop stringify methods thisCtx otherCtx otherDs [] [] ds = Inr ds"
| "deepJoin_loop stringify methods thisCtx otherCtx otherDs (thisDot # thisDots) [] ds =
     (case dotIn otherCtx (DotString thisDot) of
        Inl e \<Rightarrow> Inl e
      | Inr known \<Rightarrow>
          deepJoin_loop stringify methods thisCtx otherCtx otherDs thisDots []
            (if known then AList.delete thisDot ds else ds))"
| "deepJoin_loop stringify methods thisCtx otherCtx otherDs [] (otherDot # otherDots) ds =
     (case dotIn thisCtx (DotString otherDot) of
        Inl e \<Rightarrow> Inl e
      | Inr known \<Rightarrow>
          deepJoin_loop stringify methods thisCtx otherCtx otherDs [] otherDots
            (if \<not> known then AList.update otherDot (Map_get otherDs otherDot) ds else ds))"
| "deepJoin_loop stringify methods thisCtx otherCtx otherDs
       (thisDot # thisDots) (otherDot # otherDots) ds =
     (if js_lt thisDot otherDot then
        (case dotIn otherCtx (DotString thisDot) of
           Inl e \<Rightarrow> Inl e
         | Inr known \<Rightarrow>
             deepJoin_loop stringify methods thisCtx otherCtx otherDs thisDots
               (otherDot # otherDots) (if known then AList.delete thisDot ds else ds))
      else if js_lt otherDot thisDot then
        (case dotIn thisCtx (DotString otherDot) of
           Inl e \<Rightarrow> Inl e
         | Inr known \<Rightarrow>
             deepJoin_loop stringify methods thisCtx otherCtx otherDs (thisDot # thisDots)
               otherDots
               (if \<not> known then AList.update otherDot (Map_get otherDs otherDot) ds else ds))
      else
        (let thisVal = Map_get ds thisDot; otherVal = Map_get otherDs otherDot in
         if stringify thisVal \<noteq> stringify otherVal then
           (case DeltaHelpers_join methods thisVal otherVal of
              Inl e \<Rightarrow> Inl e
            | Inr joined \<Rightarrow>
                deepJoin_loop stringify methods thisCtx otherCtx otherDs thisDots otherDots
                  (AList.update thisDot joined ds))
         else deepJoin_loop stringify methods thisCtx otherCtx otherDs thisDots otherDots ds))"


subsection \<open>Objects and references\<close>

text \<open>
  Kernels and contexts are objects: two kernels may point to one context, and \<open>join\<close> tests
  object identity. The heap holds the objects, a reference is an index into it, and \<open>new\<close>
  appends. In this heap each object owns its \<open>Map\<close> and \<open>Set\<close> fields, as the constructors'
  defaults and \<open>clone\<close> build them. The constructors also take collections from the caller
  and keep them by reference; the store of the section on maps and sets as objects covers
  that.
\<close>

type_synonym ref = nat

record DotKernel =
  dataStorage :: "(string \<times> jsval) list"
  sharedContext :: ref
  contextBase :: ref

record heap =
  contexts :: "DotContext list"
  kernels :: "DotKernel list"

definition bind_err :: "error + 'a \<Rightarrow> ('a \<Rightarrow> error + 'b) \<Rightarrow> error + 'b" where
  "bind_err m f = (case m of Inl e \<Rightarrow> Inl e | Inr x \<Rightarrow> f x)"

definition get_context :: "heap \<Rightarrow> ref \<Rightarrow> error + DotContext" where
  "get_context h r = (if r < length (contexts h) then Inr (contexts h ! r) else Inl TypeError)"

definition get_kernel :: "heap \<Rightarrow> ref \<Rightarrow> error + DotKernel" where
  "get_kernel h r = (if r < length (kernels h) then Inr (kernels h ! r) else Inl TypeError)"

definition set_context :: "heap \<Rightarrow> ref \<Rightarrow> DotContext \<Rightarrow> heap" where
  "set_context h r c = h\<lparr>contexts := (contexts h)[r := c]\<rparr>"

definition set_kernel :: "heap \<Rightarrow> ref \<Rightarrow> DotKernel \<Rightarrow> heap" where
  "set_kernel h r k = h\<lparr>kernels := (kernels h)[r := k]\<rparr>"

definition alloc_context :: "heap \<Rightarrow> DotContext \<Rightarrow> ref \<times> heap" where
  "alloc_context h c = (length (contexts h), h\<lparr>contexts := contexts h @ [c]\<rparr>)"

definition alloc_kernel :: "heap \<Rightarrow> DotKernel \<Rightarrow> ref \<times> heap" where
  "alloc_kernel h k = (length (kernels h), h\<lparr>kernels := kernels h @ [k]\<rparr>)"


text \<open>\<open>new DotKernel(sharedContext)\<close>: the data storage and the context base take their
  defaults, so a context base is always allocated.\<close>

definition new_DotKernel :: "heap \<Rightarrow> ref option \<Rightarrow> ref \<times> heap" where
  "new_DotKernel h shared =
     (let (cb, h1) = alloc_context h new_DotContext
      in alloc_kernel h1
           \<lparr>dataStorage = [],
            sharedContext = (case shared of None \<Rightarrow> cb | Some r \<Rightarrow> r),
            contextBase = cb\<rparr>)"

text \<open>\<open>this.sharedContext.join(otherContext)\<close> on references: a no-op on one object.\<close>

definition DotContext_join_ref :: "heap \<Rightarrow> ref \<Rightarrow> ref \<Rightarrow> error + heap" where
  "DotContext_join_ref h this otherContext =
     (if this = otherContext then Inr h
      else bind_err (get_context h this) (\<lambda>tc.
           bind_err (get_context h otherContext) (\<lambda>oc.
           bind_err (DotContext_join tc oc) (\<lambda>tc'.
           Inr (set_context h this tc')))))"

definition DotKernel_join ::
  "(string \<Rightarrow> string \<Rightarrow> int) \<Rightarrow> heap \<Rightarrow> ref \<Rightarrow> ref \<Rightarrow> error + heap" where
  "DotKernel_join lc h this otherKernel =
     (if this = otherKernel then Inr h
      else bind_err (get_kernel h this) (\<lambda>K.
           bind_err (get_kernel h otherKernel) (\<lambda>Other.
           bind_err (sort_dots lc (map fst (dataStorage K))) (\<lambda>thisDots.
           bind_err (sort_dots lc (map fst (dataStorage Other))) (\<lambda>otherDots.
           bind_err (get_context h (sharedContext K)) (\<lambda>thisCtx.
           bind_err (get_context h (sharedContext Other)) (\<lambda>otherCtx.
           bind_err (join_loop lc thisCtx otherCtx (dataStorage Other) thisDots otherDots
                       (dataStorage K)) (\<lambda>ds'.
           DotContext_join_ref (set_kernel h this (K\<lparr>dataStorage := ds'\<rparr>))
             (sharedContext K) (sharedContext Other)))))))))"

definition DotKernel_deepJoin ::
  "(string \<Rightarrow> string \<Rightarrow> int) \<Rightarrow> (jsval \<Rightarrow> string option) \<Rightarrow> join_methods
     \<Rightarrow> heap \<Rightarrow> ref \<Rightarrow> ref \<Rightarrow> error + heap" where
  "DotKernel_deepJoin lc stringify methods h this other =
     (if this = other then Inr h
      else bind_err (get_kernel h this) (\<lambda>K.
           bind_err (get_kernel h other) (\<lambda>Other.
           bind_err (sort_dots lc (map fst (dataStorage K))) (\<lambda>thisDots.
           bind_err (sort_dots lc (map fst (dataStorage Other))) (\<lambda>otherDots.
           bind_err (get_context h (sharedContext K)) (\<lambda>thisCtx.
           bind_err (get_context h (sharedContext Other)) (\<lambda>otherCtx.
           bind_err (deepJoin_loop stringify methods thisCtx otherCtx (dataStorage Other)
                       thisDots otherDots (dataStorage K)) (\<lambda>ds'.
           DotContext_join_ref (set_kernel h this (K\<lparr>dataStorage := ds'\<rparr>))
             (sharedContext K) (sharedContext Other)))))))))"

text \<open>
  \<open>add\<close> and \<open>rmv\<close> start with \<open>new DotKernel()\<close>. The receiver and its context exist before
  the call, so they are read from the heap as it is on entry.
\<close>

definition DotKernel_add :: "heap \<Rightarrow> ref \<Rightarrow> string \<Rightarrow> jsval \<Rightarrow> error + (ref \<times> heap)" where
  "DotKernel_add h this ident val =
     bind_err (get_kernel h this) (\<lambda>K.
     bind_err (get_context h (sharedContext K)) (\<lambda>sc.
     let (res, h1) = new_DotKernel h None;
         (dot, sc') = makeDot sc ident;
         h2 = set_context h1 (sharedContext K) sc'
     in bind_err (toString_static (DotObject dot)) (\<lambda>dotStr.
     let h3 = set_kernel h2 this (K\<lparr>dataStorage := AList.update dotStr val (dataStorage K)\<rparr>)
     in bind_err (get_kernel h3 res) (\<lambda>R.
     let h4 = set_kernel h3 res (R\<lparr>dataStorage := AList.update dotStr val (dataStorage R)\<rparr>)
     in bind_err (get_context h4 (sharedContext R)) (\<lambda>rc.
     bind_err (insertDot rc (DotObject dot) True) (\<lambda>rc'.
     Inr (res, set_context h4 (sharedContext R) rc')))))))"


text \<open>
  \<open>rmv\<close>. The selector defaults to \<open>null\<close> when it is omitted or \<open>undefined\<close>. In the third
  branch the loop over the entries inserts the matching keys into the delta's cloud and
  collects them; they are deleted afterwards.
\<close>

definition DotKernel_rmv ::
  "(jsval \<Rightarrow> string option) \<Rightarrow> heap \<Rightarrow> ref \<Rightarrow> jsval \<Rightarrow> error + (ref \<times> heap)" where
  "DotKernel_rmv stringify h this val0 =
     (let val = (if val0 = Undefined then Null else val0) in
      bind_err (get_kernel h this) (\<lambda>K.
      let (res, h1) = new_DotKernel h None in
      bind_err (get_kernel h1 res) (\<lambda>R.
      bind_err (get_context h1 (sharedContext R)) (\<lambda>rc.
      if val = Null then
        bind_err (join_cloud rc (map fst (dataStorage K))) (\<lambda>rc1.
        bind_err (compact rc1) (\<lambda>rc2.
        Inr (res, set_kernel (set_context h1 (sharedContext R) rc2) this
                    (K\<lparr>dataStorage := []\<rparr>))))
      else if isDotLikeObject val then
        (let dotStr = dotLike_toString val in
         if dotStr \<in> fst ` set (dataStorage K) then
           bind_err (insertDot rc (DotString dotStr) False) (\<lambda>rc1.
           bind_err (compact rc1) (\<lambda>rc2.
           Inr (res, set_kernel (set_context h1 (sharedContext R) rc2) this
                       (K\<lparr>dataStorage := AList.delete dotStr (dataStorage K)\<rparr>))))
         else
           bind_err (compact rc) (\<lambda>rc2.
           Inr (res, set_context h1 (sharedContext R) rc2)))
      else
        (let toDelete = map fst (filter (\<lambda>(dotStr, v). stringify v = stringify val)
                                   (dataStorage K)) in
         bind_err (join_cloud rc toDelete) (\<lambda>rc1.
         bind_err (compact rc1) (\<lambda>rc2.
         Inr (res, set_kernel (set_context h1 (sharedContext R) rc2) this
                     (K\<lparr>dataStorage := fold AList.delete toDelete (dataStorage K)\<rparr>)))))))))"

definition DotKernel_clone :: "heap \<Rightarrow> ref \<Rightarrow> error + (ref \<times> heap)" where
  "DotKernel_clone h this =
     bind_err (get_kernel h this) (\<lambda>K.
     bind_err (get_context h (contextBase K)) (\<lambda>cb.
     let (clonedContext, h1) = alloc_context h cb in
     if sharedContext K = contextBase K then
       Inr (alloc_kernel h1 \<lparr>dataStorage = dataStorage K, sharedContext = clonedContext,
                             contextBase = clonedContext\<rparr>)
     else
       Inr (alloc_kernel h1 \<lparr>dataStorage = dataStorage K, sharedContext = sharedContext K,
                             contextBase = clonedContext\<rparr>)))"

section \<open>MVReg\<close>

text \<open>
  A register holds a reference to its kernel and its replica id, \<open>null\<close> by default. Dots
  carry string ids in this model, so writing through a register without an id leaves the
  model; this is reported as \<open>TypeError\<close> although the program does not raise there.
\<close>

record MVReg =
  dotKernel :: ref
  reg_id :: "string option"

definition new_MVReg :: "heap \<Rightarrow> string option \<Rightarrow> ref option \<Rightarrow> MVReg \<times> heap" where
  "new_MVReg h ident shared =
     (let (k, h1) = new_DotKernel h shared in (\<lparr>dotKernel = k, reg_id = ident\<rparr>, h1))"

definition MVReg_join ::
  "(string \<Rightarrow> string \<Rightarrow> int) \<Rightarrow> heap \<Rightarrow> MVReg \<Rightarrow> MVReg \<Rightarrow> error + heap" where
  "MVReg_join lc h this other = DotKernel_join lc h (dotKernel this) (dotKernel other)"

definition MVReg_write ::
  "(string \<Rightarrow> string \<Rightarrow> int) \<Rightarrow> (jsval \<Rightarrow> string option) \<Rightarrow> heap \<Rightarrow> MVReg \<Rightarrow> jsval
     \<Rightarrow> error + (MVReg \<times> heap)" where
  "MVReg_write lc stringify h this val =
     (let (r, h1) = new_MVReg h None None;
          (a, h2) = new_MVReg h1 None None in
      bind_err (DotKernel_rmv stringify h2 (dotKernel this) Undefined) (\<lambda>(rk, h3).
      let r' = r\<lparr>dotKernel := rk\<rparr> in
      bind_err (case reg_id this of None \<Rightarrow> Inl TypeError | Some ident \<Rightarrow> Inr ident) (\<lambda>ident.
      bind_err (DotKernel_add h3 (dotKernel this) ident val) (\<lambda>(ak, h4).
      let a' = a\<lparr>dotKernel := ak\<rparr> in
      bind_err (MVReg_join lc h4 r' a') (\<lambda>h5.
      Inr (r', h5))))))"

definition MVReg_read :: "heap \<Rightarrow> MVReg \<Rightarrow> error + jsval set" where
  "MVReg_read h this =
     bind_err (get_kernel h (dotKernel this)) (\<lambda>K. Inr (snd ` set (dataStorage K)))"


section \<open>Runs of public operations\<close>







section \<open>Anchoring and the order of contexts\<close>



definition covers :: "(string \<times> int) list \<Rightarrow> Dot \<Rightarrow> bool" where
  "covers cc d = (\<exists>k. map_of cc (dot_id d) = Some k \<and> counter d \<le> k)"

definition cc_le :: "(string \<times> int) list \<Rightarrow> (string \<times> int) list \<Rightarrow> bool" where
  "cc_le cc cc' = (\<forall>i k. map_of cc i = Some k \<longrightarrow> (\<exists>k'. map_of cc' i = Some k' \<and> k \<le> k'))"


section \<open>Joining clones in both directions\<close>

text \<open>
  \<open>join_clone lc h a b\<close> clones kernel \<open>a\<close> and joins the clone with kernel \<open>b\<close>;
  \<open>joined_storage\<close> and \<open>joined_context\<close> read the clone's data storage and the context it
  points to afterwards. A kernel owns its context when \<open>sharedContext === contextBase\<close>.
  \<open>orders_agree\<close> says that \<open>Dot.compare\<close> and the string comparison \<open><\<close> order the given
  keys alike; \<open>values_agree\<close> that two storages give every common key the same value;
  \<open>wf_context\<close> that the keys of the compact causal context are distinct, as in a \<open>Map\<close>,
  and that every cloud string is the rendering of the dot it parses to, as \<open>insertDot\<close>
  stores it. \<open>join_entry\<close> is the observed-remove rule for one key, and \<open>held\<close> is
  membership after compaction in terms of the context before it.
\<close>

definition orders_agree :: "(string \<Rightarrow> string \<Rightarrow> int) \<Rightarrow> string list \<Rightarrow> bool" where
  "orders_agree lc ks =
     (\<forall>x \<in> set ks. \<forall>y \<in> set ks.
        case compare lc (DotString x) (DotString y) of
          Inl e \<Rightarrow> False
        | Inr c \<Rightarrow> (c < 0 \<longleftrightarrow> js_lt x y) \<and> (c = 0 \<longleftrightarrow> x = y))"

definition join_entry ::
  "DotContext \<Rightarrow> DotContext \<Rightarrow> (string \<times> jsval) list \<Rightarrow> string set \<Rightarrow> string set
     \<Rightarrow> (string \<Rightarrow> jsval option) \<Rightarrow> string \<Rightarrow> jsval option" where
  "join_entry tc oc ods T O' m k =
     (if k \<in> T \<and> k \<notin> O' then (if dotIn oc (DotString k) = Inr True then None else m k)
      else if k \<in> O' \<and> k \<notin> T then
        (if dotIn tc (DotString k) = Inr True then m k else Some (Map_get ods k))
      else m k)"

definition held :: "(string \<times> int) list \<Rightarrow> string set \<Rightarrow> Dot \<Rightarrow> bool" where
  "held cc dc d =
     (covers cc d \<or> dot_toString d \<in> dc \<or>
      (counter d \<le> 0 \<and> map_of cc (dot_id d) = None \<and> dot_toString (Dot (dot_id d) 1) \<in> dc))"

definition canonical_cloud :: "string set \<Rightarrow> bool" where
  "canonical_cloud dc = (\<forall>s \<in> dc. \<exists>d. fromString s = Inr d \<and> dot_toString d = s)"

definition join_clone ::
  "(string \<Rightarrow> string \<Rightarrow> int) \<Rightarrow> heap \<Rightarrow> ref \<Rightarrow> ref \<Rightarrow> error + (ref \<times> heap)" where
  "join_clone lc h a b =
     bind_err (DotKernel_clone h a) (\<lambda>(a', h1).
     bind_err (DotKernel_join lc h1 a' b) (\<lambda>h2. Inr (a', h2)))"

definition joined_storage ::
  "(string \<Rightarrow> string \<Rightarrow> int) \<Rightarrow> heap \<Rightarrow> ref \<Rightarrow> ref \<Rightarrow> error + (string \<times> jsval) list" where
  "joined_storage lc h a b =
     bind_err (join_clone lc h a b) (\<lambda>(a', h').
     bind_err (get_kernel h' a') (\<lambda>K. Inr (dataStorage K)))"

definition joined_context ::
  "(string \<Rightarrow> string \<Rightarrow> int) \<Rightarrow> heap \<Rightarrow> ref \<Rightarrow> ref \<Rightarrow> error + DotContext" where
  "joined_context lc h a b =
     bind_err (join_clone lc h a b) (\<lambda>(a', h').
     bind_err (get_kernel h' a') (\<lambda>K. get_context h' (sharedContext K)))"

definition owns_context :: "heap \<Rightarrow> ref \<Rightarrow> bool" where
  "owns_context h k =
     (k < length (kernels h) \<and>
      sharedContext (kernels h ! k) = contextBase (kernels h ! k) \<and>
      contextBase (kernels h ! k) < length (contexts h))"

definition wf_context :: "DotContext \<Rightarrow> bool" where
  "wf_context c =
     (distinct (map fst (compactCausalContext c)) \<and> canonical_cloud (set (dotCloud c)))"

definition values_agree :: "(string \<times> jsval) list \<Rightarrow> (string \<times> jsval) list \<Rightarrow> bool" where
  "values_agree dsA dsB =
     (\<forall>k \<in> fst ` set dsA \<inter> fst ` set dsB. map_of dsA k = map_of dsB k)"

definition same_members :: "DotContext \<Rightarrow> DotContext \<Rightarrow> bool" where
  "same_members c c' = (\<forall>x. dotIn c x = dotIn c' x)"

section \<open>Maps and Sets as objects\<close>

text \<open>
  The constructors keep the collections they are given: \<open>new DotContext(map, set)\<close> stores
  its two arguments, and \<open>new DotKernel(sharedContext, dataStorage, contextBase)\<close> its three.
  So two contexts can hold one \<open>Map\<close> or one \<open>Set\<close>, and two kernels one data storage. In the
  store every \<open>Map\<close> and every \<open>Set\<close> is an object of its own; a context object holds two
  references and a kernel object three. A \<open>Map\<close> of counters and a \<open>Map\<close> of payloads are
  kept apart by their types.
\<close>

record context_object =
  ccMap :: ref
  cloudSet :: ref

record kernel_object =
  storageMap :: ref
  sharedCtx :: ref
  baseCtx :: ref

record store =
  cc_maps :: "(string \<times> int) list list"
  cloud_sets :: "string list list"
  storage_maps :: "(string \<times> jsval) list list"
  context_objects :: "context_object list"
  kernel_objects :: "kernel_object list"

definition deref :: "'a list \<Rightarrow> ref \<Rightarrow> error + 'a" where
  "deref xs r = (if r < length xs then Inr (xs ! r) else Inl TypeError)"







text \<open>Reading a context through its two references, and writing one back.\<close>

definition load_context :: "store \<Rightarrow> ref \<Rightarrow> error + DotContext" where
  "load_context s c =
     bind_err (deref (context_objects s) c) (\<lambda>obj.
     bind_err (deref (cc_maps s) (ccMap obj)) (\<lambda>cc.
     bind_err (deref (cloud_sets s) (cloudSet obj)) (\<lambda>dc.
     Inr \<lparr>compactCausalContext = cc, dotCloud = dc\<rparr>)))"

definition write_context :: "store \<Rightarrow> context_object \<Rightarrow> DotContext \<Rightarrow> store" where
  "write_context s obj ctx =
     s\<lparr>cc_maps := (cc_maps s)[ccMap obj := compactCausalContext ctx],
       cloud_sets := (cloud_sets s)[cloudSet obj := dotCloud ctx]\<rparr>"

text \<open>
  \<open>DotContext.join\<close>, \<open>DotKernel.join\<close> and \<open>DotKernel.deepJoin\<close> on the store. Every
  collection is read through its reference when the call begins, the loops of the code run
  on what was read, and the results are written through the references of \<open>this\<close>: the
  data storage after the merge loop, the compact causal context and the dot cloud after
  the context join. Where \<open>this\<close> and the other object hold one collection the code reads
  it while it writes it, and still reads what was there on entry. The loop over the other
  compact causal context sets an entry to the maximum of its value and the same value.
  The loop over the other cloud adds the rendering of a string of the \<open>Set\<close>; the \<open>Set\<close>
  holds that rendering already, or the loop comes to it later and adds it once more. The
  merge loop over one key array on both sides finds every dot on both sides and writes
  nothing (\<open>join_loop_same_keys\<close>, \<open>deepJoin_loop_same_keys\<close> below).
\<close>

definition DotContext_join_store :: "store \<Rightarrow> ref \<Rightarrow> ref \<Rightarrow> error + store" where
  "DotContext_join_store s this otherContext =
     (if this = otherContext then Inr s
      else bind_err (deref (context_objects s) this) (\<lambda>obj.
           bind_err (load_context s this) (\<lambda>tc.
           bind_err (load_context s otherContext) (\<lambda>oc.
           bind_err (DotContext_join tc oc) (\<lambda>tc'.
           Inr (write_context s obj tc'))))))"

definition DotKernel_join_store ::
  "(string \<Rightarrow> string \<Rightarrow> int) \<Rightarrow> store \<Rightarrow> ref \<Rightarrow> ref \<Rightarrow> error + store" where
  "DotKernel_join_store lc s this otherKernel =
     (if this = otherKernel then Inr s
      else bind_err (deref (kernel_objects s) this) (\<lambda>K.
           bind_err (deref (kernel_objects s) otherKernel) (\<lambda>Other.
           bind_err (deref (storage_maps s) (storageMap K)) (\<lambda>ds.
           bind_err (deref (storage_maps s) (storageMap Other)) (\<lambda>otherDs.
           bind_err (sort_dots lc (map fst ds)) (\<lambda>thisDots.
           bind_err (sort_dots lc (map fst otherDs)) (\<lambda>otherDots.
           bind_err (load_context s (sharedCtx K)) (\<lambda>thisCtx.
           bind_err (load_context s (sharedCtx Other)) (\<lambda>otherCtx.
           bind_err (join_loop lc thisCtx otherCtx otherDs thisDots otherDots ds) (\<lambda>ds'.
           DotContext_join_store
             (s\<lparr>storage_maps := (storage_maps s)[storageMap K := ds']\<rparr>)
             (sharedCtx K) (sharedCtx Other)))))))))))"

definition DotKernel_deepJoin_store ::
  "(string \<Rightarrow> string \<Rightarrow> int) \<Rightarrow> (jsval \<Rightarrow> string option) \<Rightarrow> join_methods
     \<Rightarrow> store \<Rightarrow> ref \<Rightarrow> ref \<Rightarrow> error + store" where
  "DotKernel_deepJoin_store lc stringify methods s this other =
     (if this = other then Inr s
      else bind_err (deref (kernel_objects s) this) (\<lambda>K.
           bind_err (deref (kernel_objects s) other) (\<lambda>Other.
           bind_err (deref (storage_maps s) (storageMap K)) (\<lambda>ds.
           bind_err (deref (storage_maps s) (storageMap Other)) (\<lambda>otherDs.
           bind_err (sort_dots lc (map fst ds)) (\<lambda>thisDots.
           bind_err (sort_dots lc (map fst otherDs)) (\<lambda>otherDots.
           bind_err (load_context s (sharedCtx K)) (\<lambda>thisCtx.
           bind_err (load_context s (sharedCtx Other)) (\<lambda>otherCtx.
           bind_err (deepJoin_loop stringify methods thisCtx otherCtx otherDs
                       thisDots otherDots ds) (\<lambda>ds'.
           DotContext_join_store
             (s\<lparr>storage_maps := (storage_maps s)[storageMap K := ds']\<rparr>)
             (sharedCtx K) (sharedCtx Other)))))))))))"



text \<open>
  A store in which no two objects hold one collection reads as a heap of objects that own
  their collections: \<open>heap_of\<close> looks every reference to a collection up.
\<close>

definition ctx_of :: "store \<Rightarrow> context_object \<Rightarrow> DotContext" where
  "ctx_of s obj = \<lparr>compactCausalContext = cc_maps s ! ccMap obj,
                    dotCloud = cloud_sets s ! cloudSet obj\<rparr>"

definition ker_of :: "store \<Rightarrow> kernel_object \<Rightarrow> DotKernel" where
  "ker_of s K = \<lparr>dataStorage = storage_maps s ! storageMap K,
                  sharedContext = sharedCtx K, contextBase = baseCtx K\<rparr>"

definition heap_of :: "store \<Rightarrow> heap" where
  "heap_of s = \<lparr>contexts = map (ctx_of s) (context_objects s),
                 kernels = map (ker_of s) (kernel_objects s)\<rparr>"

definition unshared :: "store \<Rightarrow> bool" where
  "unshared s =
     (distinct (map ccMap (context_objects s)) \<and>
      distinct (map cloudSet (context_objects s)) \<and>
      distinct (map storageMap (kernel_objects s)) \<and>
      (\<forall>obj \<in> set (context_objects s).
         ccMap obj < length (cc_maps s) \<and> cloudSet obj < length (cloud_sets s)) \<and>
      (\<forall>K \<in> set (kernel_objects s). storageMap K < length (storage_maps s)))"

section \<open>Predicates used in the statements\<close>

text \<open>\<open>CCC[id]\<close>, taken as 0 when the id has no entry.\<close>

definition cc_counter :: "(string \<times> int) list \<Rightarrow> string \<Rightarrow> int" where
  "cc_counter cc i = (case map_of cc i of None \<Rightarrow> 0 | Some c \<Rightarrow> c)"

text \<open>Every string of the dot cloud parses to a dot \<open>(id, c)\<close> with \<open>c > CCC[id] + 1\<close>.\<close>

definition cloud_beyond :: "DotContext \<Rightarrow> bool" where
  "cloud_beyond ctx =
     (\<forall>s \<in> set (dotCloud ctx).
        case fromString s of
          Inl e \<Rightarrow> False
        | Inr d \<Rightarrow> cc_counter (compactCausalContext ctx) (dot_id d) + 1 < counter d)"

text \<open>Every dot of the cloud has a counter of at least 1.\<close>

definition cloud_counters_positive :: "DotContext \<Rightarrow> bool" where
  "cloud_counters_positive ctx =
     (\<forall>s \<in> set (dotCloud ctx).
        case fromString s of Inl e \<Rightarrow> True | Inr d \<Rightarrow> 1 \<le> counter d)"

text \<open>Every string of the dot cloud parses.\<close>

definition cloud_parses :: "DotContext \<Rightarrow> bool" where
  "cloud_parses ctx = (\<forall>s \<in> set (dotCloud ctx). \<not> isl (fromString s))"

text \<open>The canonical rendering of a dot string: what \<open>Dot.toString\<close> makes of it.\<close>

definition canonical :: "string \<Rightarrow> string" where
  "canonical s = (case fromString s of Inl e \<Rightarrow> s | Inr d \<Rightarrow> dot_toString d)"

text \<open>Every key of a data storage parses.\<close>

definition keys_parse :: "(string \<times> jsval) list \<Rightarrow> bool" where
  "keys_parse ds = (\<forall>key \<in> fst ` set ds. \<not> isl (fromString key))"

text \<open>The kernel \<open>new DotKernel()\<close> builds around its fresh context.\<close>

definition empty_kernel :: "ref \<Rightarrow> DotKernel" where
  "empty_kernel c = \<lparr>dataStorage = [], sharedContext = c, contextBase = c\<rparr>"

definition both_numbers :: "jsval \<Rightarrow> jsval \<Rightarrow> bool" where
  "both_numbers a b =
     ((case a of Num x \<Rightarrow> True | _ \<Rightarrow> False) \<and> (case b of Num y \<Rightarrow> True | _ \<Rightarrow> False))"

section \<open>Concrete states\<close>

text \<open>
  Two kernels, each with its own context. The first is reached by two \<open>add('a', _)\<close> and
  \<open>rmv({id: 'a', counter: 1})\<close>; the second by ten \<open>add('a', _)\<close> and the removal of the
  first nine dots.
\<close>

definition two_kernels :: heap where
  "two_kernels =
     \<lparr>contexts = [\<lparr>compactCausalContext = [(''a'', 2)], dotCloud = []\<rparr>,
                  \<lparr>compactCausalContext = [(''a'', 10)], dotCloud = []\<rparr>],
      kernels = [\<lparr>dataStorage = [(''a:2'', Str ''x'')], sharedContext = 0, contextBase = 0\<rparr>,
                 \<lparr>dataStorage = [(''a:10'', Str ''y'')], sharedContext = 1, contextBase = 1\<rparr>]\<rparr>"

definition two_kernels_joined :: heap where
  "two_kernels_joined =
     \<lparr>contexts = [\<lparr>compactCausalContext = [(''a'', 10)], dotCloud = []\<rparr>,
                  \<lparr>compactCausalContext = [(''a'', 10)], dotCloud = []\<rparr>],
      kernels = [\<lparr>dataStorage = [(''a:2'', Str ''x'')], sharedContext = 0, contextBase = 0\<rparr>,
                 \<lparr>dataStorage = [(''a:10'', Str ''y'')], sharedContext = 1, contextBase = 1\<rparr>]\<rparr>"

text \<open>A context after \<open>insertDot('a:1')\<close> and \<open>insertDot('a:3')\<close>, and after one and two
  further \<open>makeDot('a')\<close>.\<close>

definition gap_context :: DotContext where
  "gap_context = \<lparr>compactCausalContext = [(''a'', 1)], dotCloud = [''a:3'']\<rparr>"

definition gap_context_2 :: DotContext where
  "gap_context_2 = \<lparr>compactCausalContext = [(''a'', 2)], dotCloud = [''a:3'']\<rparr>"

text \<open>A cloud that holds its dots out of order.\<close>

definition unordered_cloud :: DotContext where
  "unordered_cloud = \<lparr>compactCausalContext = [], dotCloud = [''a:2'', ''a:1'', ''b:3'']\<rparr>"

definition unordered_cloud_compacted :: DotContext where
  "unordered_cloud_compacted = \<lparr>compactCausalContext = [(''a'', 2)], dotCloud = [''b:3'']\<rparr>"

text \<open>A kernel one of whose payloads is structurally equal to a dot-like selector.\<close>

definition dot_selector :: jsval where
  "dot_selector = Obj [(''id'', Str ''b''), (''counter'', Num 5)]"

definition selector_heap :: heap where
  "selector_heap =
     \<lparr>contexts = [\<lparr>compactCausalContext = [(''a'', 1), (''b'', 5)], dotCloud = []\<rparr>],
      kernels = [\<lparr>dataStorage = [(''a:1'', dot_selector), (''b:5'', Str ''x'')],
                  sharedContext = 0, contextBase = 0\<rparr>]\<rparr>"

definition selector_heap_after :: heap where
  "selector_heap_after =
     \<lparr>contexts = [\<lparr>compactCausalContext = [(''a'', 1), (''b'', 5)], dotCloud = []\<rparr>,
                  \<lparr>compactCausalContext = [], dotCloud = [''b:5'']\<rparr>],
      kernels = [\<lparr>dataStorage = [(''a:1'', dot_selector)], sharedContext = 0, contextBase = 0\<rparr>,
                 \<lparr>dataStorage = [], sharedContext = 1, contextBase = 1\<rparr>]\<rparr>"

text \<open>Objects whose \<open>join\<close> method raises, and objects whose \<open>join\<close> method does nothing.\<close>

definition raising_methods :: join_methods where
  "raising_methods v =
     (case v of Obj ps \<Rightarrow> Some (\<lambda>this other. Inl PayloadError) | _ \<Rightarrow> None)"

definition idle_methods :: join_methods where
  "idle_methods v = (case v of Obj ps \<Rightarrow> Some (\<lambda>this other. Inr this) | _ \<Rightarrow> None)"




text \<open>A register of replica \<open>n1\<close> that holds two concurrent values.\<close>

definition register_heap :: heap where
  "register_heap =
     \<lparr>contexts = [\<lparr>compactCausalContext = [(''n1'', 1), (''n2'', 1)], dotCloud = []\<rparr>],
      kernels = [\<lparr>dataStorage = [(''n1:1'', Str ''A''), (''n2:1'', Str ''B'')],
                  sharedContext = 0, contextBase = 0\<rparr>]\<rparr>"

definition register_n1 :: MVReg where
  "register_n1 = \<lparr>dotKernel = 0, reg_id = Some ''n1''\<rparr>"




text \<open>Two kernels with one dot in common, which carries one value on both sides.\<close>

definition replicas_heap :: heap where
  "replicas_heap =
     \<lparr>contexts = [\<lparr>compactCausalContext = [(''a'', 2)], dotCloud = []\<rparr>,
                  \<lparr>compactCausalContext = [(''a'', 1), (''b'', 1)], dotCloud = [''a:3'']\<rparr>],
      kernels = [\<lparr>dataStorage = [(''a:1'', Str ''x''), (''a:2'', Str ''y'')],
                  sharedContext = 0, contextBase = 0\<rparr>,
                 \<lparr>dataStorage = [(''b:1'', Str ''z''), (''a:1'', Str ''x'')],
                  sharedContext = 1, contextBase = 1\<rparr>]\<rparr>"

section \<open>Strings, numbers and the wire form of a dot\<close>

lemma split_on_not_Nil: "split_on c s \<noteq> []"
  by (induction s) (auto split: list.splits)

lemma split_on_no_sep: "c \<notin> set s \<Longrightarrow> split_on c s = [s]"
  by (induction s) auto

lemma split_on_append_sep: "c \<notin> set xs \<Longrightarrow> split_on c (xs @ c # ys) = xs # split_on c ys"
  by (induction xs) auto

lemma length_split_on: "length (split_on c s) = Suc (length (filter (\<lambda>x. x = c) s))"
  by (induction s) (auto split: list.splits simp: split_on_not_Nil)

lemma split_on_two:
  assumes "split_on c s = [p, q]"
  shows "s = p @ c # q \<and> c \<notin> set p \<and> c \<notin> set q"
  using assms
proof (induction s arbitrary: p)
  case Nil
  then show ?case by simp
next
  case (Cons x xs)
  show ?case
  proof (cases "x = c")
    case True
    with Cons.prems have p: "p = []" and q: "split_on c xs = [q]" by auto
    from q have "length (filter (\<lambda>x. x = c) xs) = 0"
      using length_split_on[of c xs] by simp
    then have nc: "c \<notin> set xs" by (metis (mono_tags, lifting) filter_empty_conv length_0_conv)
    then have "q = xs" using q by (simp add: split_on_no_sep)
    with p True nc show ?thesis by simp
  next
    case False
    with Cons.prems obtain p' where sp: "split_on c xs = [p', q]" and p: "p = x # p'"
      by (auto split: list.splits)
    from Cons.IH[OF sp] p False show ?thesis by auto
  qed
qed


lemma lt10_cases: "n < (10::nat) \<Longrightarrow> n \<in> {0, 1, 2, 3, 4, 5, 6, 7, 8, 9}"
  by auto

lemma digit_char_props:
  assumes "n < 10"
  shows "digit_value (digit_char n) = Some n"
    and "\<not> is_ws (digit_char n)"
    and "digit_char n \<noteq> CHR ''-''" and "digit_char n \<noteq> CHR ''+''"
    and "digit_char n \<noteq> CHR '':''" and "digit_char n \<noteq> CHR ''x''" and "digit_char n \<noteq> CHR ''X''"
  using lt10_cases[OF assms]
  by (auto simp: digit_char_def digit_value_def is_ws_def)

lemma nat_toString_digits:
  "\<forall>c \<in> set (nat_toString n). \<exists>k < 10. c = digit_char k"
proof (induction n rule: nat_toString.induct)
  case (1 n)
  show ?case
  proof (cases "n < 10")
    case True
    then show ?thesis by (subst nat_toString.simps) auto
  next
    case False
    have "n mod 10 < 10" by simp
    then have "\<exists>k < 10. digit_char (n mod 10) = digit_char k" by blast
    with 1 False show ?thesis by (subst nat_toString.simps) auto
  qed
qed

lemma nat_toString_chars:
  assumes "c \<in> set (nat_toString n)"
  shows "is_digit 10 c" and "\<not> is_ws c" and "c \<noteq> CHR ''-''" and "c \<noteq> CHR ''+''"
    and "c \<noteq> CHR '':''" and "c \<noteq> CHR ''x''" and "c \<noteq> CHR ''X''"
proof -
  from assms nat_toString_digits obtain k where k: "k < 10" "c = digit_char k" by blast
  then show "is_digit 10 c" and "\<not> is_ws c" and "c \<noteq> CHR ''-''" and "c \<noteq> CHR ''+''"
    and "c \<noteq> CHR '':''" and "c \<noteq> CHR ''x''" and "c \<noteq> CHR ''X''"
    by (simp_all add: digit_char_props is_digit_def)
qed

lemma nat_toString_not_Nil: "nat_toString n \<noteq> []"
  by (subst nat_toString.simps) simp

lemma digits_value_snoc:
  "digits_value R (Z @ [c]) = digits_value R Z * R + the (digit_value c)"
  by (simp add: digits_value_def)

lemma digits_value_nat_toString: "digits_value 10 (nat_toString n) = n"
proof (induction n rule: nat_toString.induct)
  case (1 n)
  show ?case
  proof (cases "n < 10")
    case True
    then show ?thesis
      by (subst nat_toString.simps) (simp add: digits_value_def digit_char_props)
  next
    case False
    have "n mod 10 < 10" by simp
    then have "the (digit_value (digit_char (n mod 10))) = n mod 10"
      by (simp add: digit_char_props)
    with 1 False show ?thesis
      by (subst nat_toString.simps) (simp add: digits_value_snoc)
  qed
qed

lemma parseInt_digits:
  assumes ne: "s \<noteq> []" and dig: "\<forall>c \<in> set s. is_digit 10 c \<and> \<not> is_ws c \<and> c \<noteq> CHR ''-'' \<and> c \<noteq> CHR ''+'' \<and> c \<noteq> CHR ''x'' \<and> c \<noteq> CHR ''X''"
  shows "parseInt s = Some (int (digits_value 10 s))"
    and "parseInt (CHR ''-'' # s) = Some (- int (digits_value 10 s))"
proof -
  obtain c cs where s: "s = c # cs" using ne by (cases s) auto
  have c: "\<not> is_ws c" "c \<noteq> CHR ''-''" "c \<noteq> CHR ''+''" using dig s by auto
  have ws: "dropWhile is_ws s = s" using s c by simp
  have nx: "CHR ''x'' \<notin> set s" "CHR ''X'' \<notin> set s" using dig by auto
  have nohex: "take 2 s \<noteq> ''0x''" "take 2 s \<noteq> ''0X''"
  proof -
    show "take 2 s \<noteq> ''0x''"
    proof
      assume "take 2 s = ''0x''"
      then have "CHR ''x'' \<in> set (take 2 s)" by simp
      then have "CHR ''x'' \<in> set s" by (rule in_set_takeD)
      with nx show False by simp
    qed
    show "take 2 s \<noteq> ''0X''"
    proof
      assume "take 2 s = ''0X''"
      then have "CHR ''X'' \<in> set (take 2 s)" by simp
      then have "CHR ''X'' \<in> set s" by (rule in_set_takeD)
      with nx show False by simp
    qed
  qed
  have tw: "takeWhile (is_digit 10) s = s"
    using dig by (auto simp: takeWhile_eq_all_conv)
  have hd: "hd s \<noteq> CHR ''-''" "hd s \<noteq> CHR ''+''" using s c by simp_all
  show "parseInt s = Some (int (digits_value 10 s))"
    unfolding parseInt_def Let_def
    using ws nohex hd ne by (simp add: tw)
  have nws: "\<not> is_ws CHR ''-''" by (simp add: is_ws_def)
  show "parseInt (CHR ''-'' # s) = Some (- int (digits_value 10 s))"
    unfolding parseInt_def Let_def
    using nohex ne nws by (simp add: tw)
qed

lemma parseInt_number_toString: "parseInt (number_toString n) = Some n"
proof -
  have *: "\<And>m. \<forall>c \<in> set (nat_toString m). is_digit 10 c \<and> \<not> is_ws c \<and> c \<noteq> CHR ''-'' \<and> c \<noteq> CHR ''+'' \<and> c \<noteq> CHR ''x'' \<and> c \<noteq> CHR ''X''"
    using nat_toString_chars by blast
  show ?thesis
  proof (cases "n < 0")
    case False
    then show ?thesis
      using parseInt_digits(1)[OF nat_toString_not_Nil *, of "nat n"]
      by (simp add: number_toString_def digits_value_nat_toString)
  next
    case True
    then show ?thesis
      using parseInt_digits(2)[OF nat_toString_not_Nil *, of "nat (- n)"]
      by (simp add: number_toString_def digits_value_nat_toString)
  qed
qed

lemma number_toString_no_colon: "CHR '':'' \<notin> set (number_toString n)"
  using nat_toString_chars(5) by (auto simp: number_toString_def)

lemma fromString_dot_toString:
  "dot_id d \<noteq> [] \<Longrightarrow> CHR '':'' \<notin> set (dot_id d) \<Longrightarrow> fromString (dot_toString d) = Inr d"
  by (simp add: fromString_def dot_toString_def split_on_append_sep split_on_no_sep
      number_toString_no_colon parseInt_number_toString)

lemma fromString_wf:
  assumes "fromString s = Inr d"
  shows "dot_id d \<noteq> []" and "CHR '':'' \<notin> set (dot_id d)"
proof -
  from assms obtain p q where pq: "split_on CHR '':'' s = [p, q]" and d: "dot_id d = p" "p \<noteq> []"
    unfolding fromString_def Let_def
    by (auto split: if_splits option.splits simp: length_Suc_conv numeral_2_eq_2)
  from split_on_two[OF pq] d show "dot_id d \<noteq> []" and "CHR '':'' \<notin> set (dot_id d)" by auto
qed

lemma fromString_toString_inj:
  assumes "fromString (dot_toString d) = Inr d'"
  shows "d' = d"
proof -
  let ?s = "dot_toString d"
  from assms obtain p q where pq: "split_on CHR '':'' ?s = [p, q]"
    unfolding fromString_def Let_def
    by (auto split: if_splits option.splits simp: length_Suc_conv numeral_2_eq_2)
  have "length (filter (\<lambda>x. x = CHR '':'') ?s) = 1"
    using length_split_on[of "CHR '':''" ?s] pq by simp
  then have "filter (\<lambda>x. x = CHR '':'') (dot_id d) = []"
    by (simp add: dot_toString_def)
  then have nc: "CHR '':'' \<notin> set (dot_id d)" by (auto simp: filter_empty_conv)
  have ne: "dot_id d \<noteq> []"
  proof
    assume "dot_id d = []"
    then have "fromString ?s = Inl InvalidDotFormat"
      by (simp add: fromString_def dot_toString_def split_on_no_sep number_toString_no_colon
          split: option.splits)
    with assms show False by simp
  qed
  from fromString_dot_toString[OF ne nc] assms show ?thesis by simp
qed


section \<open>Dot parsing\<close>

text \<open>
  C7. The claim: \<open>Dot.fromString\<close> raises for every string that is not exactly of the
  form \<open>id:integer\<close>. The code converts the counter with \<open>parseInt\<close> and only tests the
  result for NaN, so trailing characters after the digits are silently dropped:
  \<open>"a:12abc"\<close> is not of the form \<open>id:integer\<close>, and parses to the dot \<open>(a, 12)\<close>.
\<close>

theorem fromString_accepts_trailing_garbage:
  "\<not> id_integer_form ''a:12abc'' \<and> fromString ''a:12abc'' = Inr (Dot ''a'' 12)"
  by (simp add: id_integer_form_def is_decimal_integer_def is_digit_def digit_value_def
      fromString_def parseInt_def is_ws_def digits_value_def)

section \<open>The observed-remove rule of \<open>DotKernel.join\<close>\<close>

text \<open>
  C1. The claim: after \<open>A.join(B)\<close>, a dot held only by \<open>B\<close> and unknown to \<open>A\<close>'s context
  is in \<open>A\<close> with \<open>B\<close>'s value, and a dot held only by \<open>A\<close> and known to \<open>B\<close>'s context is gone
  from \<open>A\<close>. The loop decides "only in this" with the string comparison \<open>thisDot < otherDot\<close>
  and "only in other" with \<open>Dot.compare\<close>, which orders counters numerically. For the keys
  \<open>a:2\<close> and \<open>a:10\<close> neither test succeeds, the loop treats the two different dots as one
  dot held by both sides and steps over both: \<open>a:10\<close> is not copied, and \<open>a:2\<close>, which
  \<open>B\<close>'s context contains, is not deleted.
\<close>

theorem join_steps_over_distinct_dots:
  "map_of (dataStorage (kernels two_kernels ! 1)) ''a:10'' = Some (Str ''y'') \<and>
   map_of (dataStorage (kernels two_kernels ! 0)) ''a:10'' = None \<and>
   dotIn (contexts two_kernels ! 0) (DotString ''a:10'') = Inr False \<and>
   map_of (dataStorage (kernels two_kernels ! 1)) ''a:2'' = None \<and>
   dotIn (contexts two_kernels ! 1) (DotString ''a:2'') = Inr True \<and>
   DotKernel_join ordinalCompare two_kernels 0 1 = Inr two_kernels_joined \<and>
   map_of (dataStorage (kernels two_kernels_joined ! 0)) ''a:10'' = None \<and>
   map_of (dataStorage (kernels two_kernels_joined ! 0)) ''a:2'' = Some (Str ''x'')"
  by code_simp


section \<open>Compaction\<close>

lemma compact_pass_progress:
  "compact_pass dc cc del flag = Inr (cc', del', flag') \<Longrightarrow>
   (flag' \<longrightarrow> flag \<or> (\<exists>s \<in> set dc. s \<in> set del')) \<and> set del \<subseteq> set del'"
proof (induction dc arbitrary: cc del flag)
  case Nil
  then show ?case by simp
next
  case (Cons s rest)
  show ?case
    using Cons.prems
    by (auto split: sum.splits option.splits if_splits dest!: Cons.IH)
qed

lemma fold_Set_delete: "fold Set_delete del dc = filter (\<lambda>s. s \<notin> set del) dc"
proof (induction del arbitrary: dc)
  case Nil
  then show ?case by simp
next
  case (Cons a del)
  have "Set_delete a dc = filter (\<lambda>s. s \<noteq> a) dc"
    unfolding Set_delete_def by (induction dc) auto
  then show ?case by (simp add: Cons.IH conj_commute)
qed

lemma compact_pass_flag_kept:
  "compact_pass dc cc del True = Inr (cc', del', flag') \<Longrightarrow> flag'"
  by (induction dc arbitrary: cc del) (auto split: sum.splits option.splits if_splits)

lemma compact_pass_quiet:
  "compact_pass dc cc del flag = Inr (cc', del', False) \<Longrightarrow>
   cc' = cc \<and> \<not> flag \<and>
   (\<forall>s \<in> set dc. s \<notin> set del' \<longrightarrow>
      (\<exists>d. fromString s = Inr d \<and>
           (case map_of cc (dot_id d) of None \<Rightarrow> counter d \<noteq> 1 | Some k \<Rightarrow> k + 1 < counter d)))"
proof (induction dc arbitrary: del flag)
  case Nil
  then show ?case by simp
next
  case (Cons s rest)
  from Cons.prems obtain d where d: "fromString s = Inr d"
    by (auto split: sum.splits)
  show ?case
  proof (cases "map_of cc (dot_id d)")
    case None
    show ?thesis
    proof (cases "counter d = 1")
      case True
      with Cons.prems d None have False
        by (auto dest: compact_pass_flag_kept)
      then show ?thesis ..
    next
      case False
      with Cons.prems d None have "compact_pass rest cc del flag = Inr (cc', del', False)" by simp
      from Cons.IH[OF this] d None False show ?thesis by auto
    qed
  next
    case (Some k)
    consider "counter d = k + 1" | "counter d \<le> k" | "k + 1 < counter d" by linarith
    then show ?thesis
    proof cases
      case 1
      with Cons.prems d Some have False by (auto dest: compact_pass_flag_kept)
      then show ?thesis ..
    next
      case 2
      with Cons.prems d Some have r: "compact_pass rest cc (del @ [s]) flag = Inr (cc', del', False)" by simp
      from compact_pass_progress[OF r] have "s \<in> set del'" by auto
      with Cons.IH[OF r] show ?thesis by auto
    next
      case 3
      with Cons.prems d Some have "compact_pass rest cc del flag = Inr (cc', del', False)" by simp
      from Cons.IH[OF this] d Some 3 show ?thesis by auto
    qed
  qed
qed

lemma compact_pass_Inr_iff:
  "(\<exists>r. compact_pass dc cc del flag = Inr r) \<longleftrightarrow> (\<forall>s \<in> set dc. \<exists>d. fromString s = Inr d)"
proof (induction dc arbitrary: cc del flag)
  case Nil
  then show ?case by simp
next
  case (Cons s rest)
  show ?case
  proof (cases "fromString s")
    case (Inl e)
    then show ?thesis by auto
  next
    case (Inr d)
    then show ?thesis using Cons.IH
      by (auto split: option.splits)
  qed
qed

lemma compact_returns:
  "\<forall>s \<in> set (dotCloud ctx). \<exists>d. fromString s = Inr d \<Longrightarrow> \<exists>ctx'. compact ctx = Inr ctx'"
proof (induction ctx rule: compact.induct)
  case (1 ctx)
  from compact_pass_Inr_iff[of "dotCloud ctx" "compactCausalContext ctx" "[]" False] "1.prems"
  obtain cc del flag where p: "compact_pass (dotCloud ctx) (compactCausalContext ctx) [] False = Inr (cc, del, flag)"
    by (metis prod_cases3)
  show ?case
  proof (cases flag)
    case False
    with p show ?thesis by (subst compact.simps) simp
  next
    case True
    let ?ctx' = "\<lparr>compactCausalContext = cc, dotCloud = fold Set_delete del (dotCloud ctx)\<rparr>"
    have "\<forall>s \<in> set (dotCloud ?ctx'). \<exists>d. fromString s = Inr d"
      using "1.prems" by (simp add: fold_Set_delete)
    from "1.IH"[OF p refl refl refl True this] p True
    show ?thesis by (subst compact.simps) simp
  qed
qed

lemma compact_cloud_beyond:
  "cloud_counters_positive ctx \<Longrightarrow> compact ctx = Inr ctx' \<Longrightarrow> cloud_beyond ctx'"
proof (induction ctx rule: compact.induct)
  case (1 ctx)
  from "1.prems"(2) obtain cc del flag where
    p: "compact_pass (dotCloud ctx) (compactCausalContext ctx) [] False = Inr (cc, del, flag)"
    by (subst (asm) compact.simps) (auto split: sum.splits)
  let ?next = "\<lparr>compactCausalContext = cc, dotCloud = fold Set_delete del (dotCloud ctx)\<rparr>"
  show ?case
  proof (cases flag)
    case True
    have pos: "cloud_counters_positive ?next"
      using "1.prems"(1) by (simp add: cloud_counters_positive_def fold_Set_delete)
    from "1.prems"(2) p True have "compact ?next = Inr ctx'"
      by (subst (asm) compact.simps) simp
    from "1.IH"[OF p refl refl refl True pos this] show ?thesis .
  next
    case False
    from "1.prems"(2) p False have ctx': "ctx' = ?next"
      by (subst (asm) compact.simps) simp
    from p False compact_pass_quiet[of "dotCloud ctx" "compactCausalContext ctx" "[]" False cc del]
    have cc: "cc = compactCausalContext ctx"
      and q: "\<forall>s \<in> set (dotCloud ctx). s \<notin> set del \<longrightarrow>
      (\<exists>d. fromString s = Inr d \<and>
           (case map_of (compactCausalContext ctx) (dot_id d) of None \<Rightarrow> counter d \<noteq> 1 | Some k \<Rightarrow> k + 1 < counter d))"
      by auto
    show ?thesis
      unfolding cloud_beyond_def
    proof
      fix s assume "s \<in> set (dotCloud ctx')"
      then have s: "s \<in> set (dotCloud ctx)" "s \<notin> set del"
        by (simp_all add: ctx' fold_Set_delete)
      with q obtain d where d: "fromString s = Inr d"
        "case map_of (compactCausalContext ctx) (dot_id d) of None \<Rightarrow> counter d \<noteq> 1 | Some k \<Rightarrow> k + 1 < counter d"
        by blast
      from "1.prems"(1) s(1) d(1) have "1 \<le> counter d"
        by (auto simp: cloud_counters_positive_def)
      with d show "case fromString s of Inl e \<Rightarrow> False
         | Inr d \<Rightarrow> cc_counter (compactCausalContext ctx') (dot_id d) + 1 < counter d"
        by (auto simp: ctx' cc cc_counter_def split: option.splits)
    qed
  qed
qed

lemma fresh_dot_iff:
  "dotIn ctx (DotObject (fst (makeDot ctx ident))) = Inr False \<longleftrightarrow>
   dot_toString (Dot ident (cc_counter (compactCausalContext ctx) ident + 1)) \<notin> set (dotCloud ctx)"
  by (auto simp: dotIn_def makeDot_def toDot_def cc_counter_def Let_def split: option.splits)

lemma fresh_dot_beyond:
  assumes "cloud_beyond ctx"
  shows "dotIn ctx (DotObject (fst (makeDot ctx ident))) = Inr False"
proof -
  let ?d = "Dot ident (cc_counter (compactCausalContext ctx) ident + 1)"
  have "dot_toString ?d \<notin> set (dotCloud ctx)"
  proof
    assume m: "dot_toString ?d \<in> set (dotCloud ctx)"
    with assms have "case fromString (dot_toString ?d) of Inl e \<Rightarrow> False
        | Inr d \<Rightarrow> cc_counter (compactCausalContext ctx) (dot_id d) + 1 < counter d"
      unfolding cloud_beyond_def by blast
    then obtain d' where d': "fromString (dot_toString ?d) = Inr d'"
      "cc_counter (compactCausalContext ctx) (dot_id d') + 1 < counter d'"
      by (cases "fromString (dot_toString ?d)") auto
    from fromString_toString_inj[OF d'(1)] d'(2) show False by simp
  qed
  then show ?thesis by (simp add: fresh_dot_iff)
qed


text \<open>
  C5. For every context whose cloud dots all have a counter of at least 1, a \<open>compact()\<close>
  that returns leaves only dots \<open>(id, c)\<close> with \<open>c > CCC[id] + 1\<close> in the cloud, \<open>CCC[id]\<close>
  taken as 0 when absent. \<open>compact\<close> raises only on a cloud string that does not parse; when
  every string parses it returns.
\<close>

theorem compact_postcondition:
  "cloud_counters_positive ctx \<Longrightarrow>
   (\<forall>ctx'. compact ctx = Inr ctx' \<longrightarrow> cloud_beyond ctx') \<and>
   (cloud_parses ctx \<longrightarrow> (\<exists>ctx'. compact ctx = Inr ctx'))"
proof -
  assume pos: "cloud_counters_positive ctx"
  have "cloud_parses ctx \<Longrightarrow> \<exists>ctx'. compact ctx = Inr ctx'"
  proof -
    assume "cloud_parses ctx"
    then have "\<forall>s \<in> set (dotCloud ctx). \<exists>d. fromString s = Inr d"
      unfolding cloud_parses_def by (metis sum.collapse(2))
    then show ?thesis by (rule compact_returns)
  qed
  with pos compact_cloud_beyond show ?thesis by blast
qed

theorem compact_postcondition_witness:
  "cloud_counters_positive unordered_cloud \<and>
   cloud_parses unordered_cloud \<and>
   compact unordered_cloud = Inr unordered_cloud_compacted \<and>
   cloud_beyond unordered_cloud_compacted"
proof -
  have pos: "cloud_counters_positive unordered_cloud" by code_simp
  have run: "compact unordered_cloud = Inr unordered_cloud_compacted" by code_simp
  have parses: "cloud_parses unordered_cloud" by code_simp
  from compact_postcondition[OF pos] run have "cloud_beyond unordered_cloud_compacted" by blast
  with pos run parses show ?thesis by blast
qed

section \<open>Fresh dots\<close>

text \<open>
  C3. The claim: for every context reached through the public API, the dot returned by
  \<open>makeDot(id)\<close> was not a member before the call. \<open>makeDot\<close> reads and bumps \<open>CCC[id]\<close> only and
  never looks at the dot cloud: after \<open>insertDot('a:1')\<close> and \<open>insertDot('a:3')\<close> the cloud
  holds \<open>a:3\<close>, the first \<open>makeDot('a')\<close> returns \<open>(a, 2)\<close>, and the second returns \<open>(a, 3)\<close>,
  which is a member already.
\<close>

theorem makeDot_returns_member_counterexample:
  "insertDot new_DotContext (DotString ''a:1'') True
     = Inr \<lparr>compactCausalContext = [(''a'', 1)], dotCloud = []\<rparr> \<and>
   insertDot \<lparr>compactCausalContext = [(''a'', 1)], dotCloud = []\<rparr> (DotString ''a:3'') True
     = Inr gap_context \<and>
   makeDot gap_context ''a'' = (Dot ''a'' 2, gap_context_2) \<and>
   fst (makeDot gap_context_2 ''a'') = Dot ''a'' 3 \<and>
   dotIn gap_context_2 (DotObject (fst (makeDot gap_context_2 ''a''))) = Inr True"
  by code_simp

text \<open>
  C3, amended. The dot returned by \<open>makeDot(id)\<close> was not a member before the call exactly
  when the cloud does not hold the string \<open>id:(CCC[id] + 1)\<close>; in particular it was not a
  member whenever every cloud dot lies beyond \<open>CCC + 1\<close>, which is the state \<open>compact()\<close>
  leaves.
\<close>

theorem makeDot_fresh:
  "(dotIn ctx (DotObject (fst (makeDot ctx ident))) = Inr False \<longleftrightarrow>
      dot_toString (Dot ident (cc_counter (compactCausalContext ctx) ident + 1))
        \<notin> set (dotCloud ctx)) \<and>
   (cloud_beyond ctx \<longrightarrow> dotIn ctx (DotObject (fst (makeDot ctx ident))) = Inr False)"
  using fresh_dot_iff fresh_dot_beyond by blast

theorem makeDot_fresh_witness:
  "cloud_beyond gap_context \<and>
   dotIn gap_context (DotObject (fst (makeDot gap_context ''a''))) = Inr False"
proof -
  have b: "cloud_beyond gap_context" by code_simp
  from makeDot_fresh[of gap_context "''a''"] b show ?thesis by blast
qed

section \<open>Delta helpers\<close>

text \<open>
  C8. The claim: \<open>DeltaHelpers.join(a, b)\<close> returns \<open>max(a, b)\<close> on two numbers, returns a
  joined copy of \<open>a\<close> without raising when \<open>a\<close> exposes \<open>join\<close>, and raises exactly when
  neither case applies. The call \<open>res.join(right)\<close> is not guarded: when the payload's own
  \<open>join\<close> raises, so does \<open>DeltaHelpers.join\<close>, although \<open>a\<close> exposes a \<open>join\<close> function.
\<close>

theorem DeltaHelpers_join_raises_counterexample:
  "raising_methods (Obj []) \<noteq> None \<and>
   DeltaHelpers_join raising_methods (Obj []) (Num 1) = Inl PayloadError"
  by (simp add: raising_methods_def DeltaHelpers_join_def truthy_def)

text \<open>
  C8, amended. On two numbers the result is their maximum. Otherwise, when \<open>a\<close> is truthy
  and exposes a \<open>join\<close> function, the result is what that function makes of the copy:
  the mutated copy if it returns, its error if it raises. In every other case the call
  raises \<open>'Cannot join these types'\<close>.
\<close>

theorem DeltaHelpers_join_cases:
  "DeltaHelpers_join methods (Num a) (Num b) = Inr (Num (max a b)) \<and>
   (\<not> both_numbers left right \<and> truthy left \<and> methods left = Some m \<longrightarrow>
      DeltaHelpers_join methods left right = m left right) \<and>
   (\<not> both_numbers left right \<and> (\<not> truthy left \<or> methods left = None) \<longrightarrow>
      DeltaHelpers_join methods left right = Inl CannotJoin)"
proof (intro conjI impI)
  show "DeltaHelpers_join methods (Num a) (Num b) = Inr (Num (max a b))"
    by (simp add: DeltaHelpers_join_def)
next
  assume "\<not> both_numbers left right \<and> truthy left \<and> methods left = Some m"
  then show "DeltaHelpers_join methods left right = m left right"
    by (cases left; cases right;
        simp add: DeltaHelpers_join_def both_numbers_def split: sum.splits)
next
  assume "\<not> both_numbers left right \<and> (\<not> truthy left \<or> methods left = None)"
  then show "DeltaHelpers_join methods left right = Inl CannotJoin"
    by (cases left; cases right;
        auto simp add: DeltaHelpers_join_def both_numbers_def split: sum.splits option.splits)
qed

theorem DeltaHelpers_join_cases_witness:
  "(\<not> both_numbers (Obj [(''value'', Num 5)]) (Obj [(''value'', Num 8)]) \<and>
    truthy (Obj [(''value'', Num 5)]) \<and>
    idle_methods (Obj [(''value'', Num 5)]) = Some (\<lambda>this other. Inr this) \<and>
    DeltaHelpers_join idle_methods (Obj [(''value'', Num 5)]) (Obj [(''value'', Num 8)])
      = Inr (Obj [(''value'', Num 5)])) \<and>
   (\<not> both_numbers (Str ''x'') (Str ''z'') \<and> idle_methods (Str ''x'') = None \<and>
    DeltaHelpers_join idle_methods (Str ''x'') (Str ''z'') = Inl CannotJoin)"
proof -
  have h1: "\<not> both_numbers (Obj [(''value'', Num 5)]) (Obj [(''value'', Num 8)]) \<and>
    truthy (Obj [(''value'', Num 5)]) \<and>
    idle_methods (Obj [(''value'', Num 5)]) = Some (\<lambda>this other. Inr this)"
    by (simp add: both_numbers_def truthy_def idle_methods_def)
  have h2: "\<not> both_numbers (Str ''x'') (Str ''z'') \<and>
    (\<not> truthy (Str ''x'') \<or> idle_methods (Str ''x'') = None)"
    by (simp add: both_numbers_def idle_methods_def)
  from DeltaHelpers_join_cases[of idle_methods 0 0 "Obj [(''value'', Num 5)]"
      "Obj [(''value'', Num 8)]" "\<lambda>this other. Inr this"] h1
  have r1: "DeltaHelpers_join idle_methods (Obj [(''value'', Num 5)]) (Obj [(''value'', Num 8)])
      = Inr (Obj [(''value'', Num 5)])" by blast
  from DeltaHelpers_join_cases[of idle_methods 0 0 "Str ''x''" "Str ''z''"] h2
  have r2: "DeltaHelpers_join idle_methods (Str ''x'') (Str ''z'') = Inl CannotJoin" by blast
  from h1 h2 r1 r2 show ?thesis by (simp add: idle_methods_def)
qed

section \<open>Objects on the heap\<close>

lemma bind_err_simps [simp]:
  "bind_err (Inr x) f = f x"
  "bind_err (Inl e) f = Inl e"
  by (simp_all add: bind_err_def)

lemma bind_err_Inr_iff: "bind_err m f = Inr y \<longleftrightarrow> (\<exists>x. m = Inr x \<and> f x = Inr y)"
  by (cases m) auto

lemma get_kernel_set_context [simp]: "get_kernel (set_context h r c) k = get_kernel h k"
  by (simp add: get_kernel_def set_context_def)

lemma get_context_set_kernel [simp]: "get_context (set_kernel h r K) c = get_context h c"
  by (simp add: get_context_def set_kernel_def)

lemma get_kernel_set_kernel:
  "get_kernel (set_kernel h r K) k =
     (if k = r \<and> r < length (kernels h) then Inr K else get_kernel h k)"
  by (simp add: get_kernel_def set_kernel_def)

lemma get_context_set_context:
  "get_context (set_context h r c) r' =
     (if r' = r \<and> r < length (contexts h) then Inr c else get_context h r')"
  by (simp add: get_context_def set_context_def)

lemma get_kernel_Inr_iff: "get_kernel h k = Inr K \<longleftrightarrow> k < length (kernels h) \<and> K = kernels h ! k"
  by (auto simp: get_kernel_def)

lemma get_context_Inr_iff: "get_context h r = Inr c \<longleftrightarrow> r < length (contexts h) \<and> c = contexts h ! r"
  by (auto simp: get_context_def)

lemma new_DotKernel_eq:
  "new_DotKernel h shared =
     (length (kernels h),
      \<lparr>contexts = contexts h @ [new_DotContext],
       kernels = kernels h @ [\<lparr>dataStorage = [],
                    sharedContext = (case shared of None \<Rightarrow> length (contexts h) | Some r \<Rightarrow> r),
                    contextBase = length (contexts h)\<rparr>]\<rparr>)"
  by (simp add: new_DotKernel_def alloc_context_def alloc_kernel_def)

lemma AList_delete_absent: "k \<notin> fst ` set al \<Longrightarrow> AList.delete k al = al"
  by (induction al) auto

lemma isDotLikeObject_not_null: "isDotLikeObject v \<Longrightarrow> v \<noteq> Null \<and> v \<noteq> Undefined"
  by (auto simp: isDotLikeObject_def)


section \<open>The selector of \<open>rmv\<close>\<close>

text \<open>
  C10. For every kernel and every non-null object \<open>sel\<close> with both \<open>id\<close> and \<open>counter\<close>
  defined, \<open>rmv(sel)\<close> is a removal by dot: the storage afterwards is the storage before
  with at most the one key \<open>`${sel.id}:${sel.counter}`\<close> deleted. This holds for every
  \<open>JSON.stringify\<close>, so no payload is removed for being structurally equal to \<open>sel\<close>.
\<close>

theorem rmv_dotLike_removes_one_key:
  assumes sel: "isDotLikeObject sel"
    and run: "DotKernel_rmv stringify h this sel = Inr (res, h')"
    and K: "get_kernel h this = Inr K"
  shows "\<exists>K'. get_kernel h' this = Inr K' \<and>
              dataStorage K' = AList.delete (dotLike_toString sel) (dataStorage K)"
proof -
  from K have lt: "this < length (kernels h)" and Kd: "K = kernels h ! this"
    by (simp_all add: get_kernel_Inr_iff)
  note nn = isDotLikeObject_not_null[OF sel]
  show ?thesis
  proof (cases "dotLike_toString sel \<in> fst ` set (dataStorage K)")
    case True
    with run sel nn K lt show ?thesis
      unfolding DotKernel_rmv_def Let_def
      by (auto simp: bind_err_Inr_iff get_kernel_set_kernel set_context_def new_DotKernel_eq
          split: prod.splits if_splits)
  next
    case False
    with run sel nn K lt Kd show ?thesis
      unfolding DotKernel_rmv_def Let_def
      by (auto simp: bind_err_Inr_iff AList_delete_absent new_DotKernel_eq get_kernel_def
          set_context_def nth_append split: prod.splits if_splits)
  qed
qed

theorem rmv_dotLike_removes_one_key_witness:
  "isDotLikeObject dot_selector \<and>
   DotKernel_rmv (\<lambda>v. None) selector_heap 0 dot_selector = Inr (1, selector_heap_after) \<and>
   get_kernel selector_heap 0 = Inr (kernels selector_heap ! 0) \<and>
   map_of (dataStorage (kernels selector_heap ! 0)) ''a:1'' = Some dot_selector \<and>
   (\<exists>K'. get_kernel selector_heap_after 0 = Inr K' \<and>
         dataStorage K' = AList.delete (dotLike_toString dot_selector)
                            (dataStorage (kernels selector_heap ! 0)))"
proof -
  have sel: "isDotLikeObject dot_selector" by code_simp
  have run: "DotKernel_rmv (\<lambda>v. None) selector_heap 0 dot_selector = Inr (1, selector_heap_after)"
    by code_simp
  have K: "get_kernel selector_heap 0 = Inr (kernels selector_heap ! 0)" by code_simp
  have v: "map_of (dataStorage (kernels selector_heap ! 0)) ''a:1'' = Some dot_selector"
    by code_simp
  from rmv_dotLike_removes_one_key[OF sel run K] sel run K v show ?thesis by blast
qed


section \<open>Totality of the merge and of the context join\<close>

lemma not_isl_iff: "\<not> isl x \<longleftrightarrow> (\<exists>y. x = Inr y)"
  by (cases x) auto

lemma fromString_canonical:
  "fromString s = Inr d \<Longrightarrow> fromString (canonical s) = Inr d"
  using fromString_wf[of s d] by (simp add: canonical_def fromString_dot_toString)

lemma dotIn_returns: "fromString s = Inr d \<Longrightarrow> \<exists>b. dotIn ctx (DotString s) = Inr b"
  by (auto simp: dotIn_def toDot_def split: option.splits)

lemma compare_returns:
  "fromString a = Inr d1 \<Longrightarrow> fromString b = Inr d2 \<Longrightarrow>
   \<exists>c. compare lc (DotString a) (DotString b) = Inr c"
  by (auto simp: compare_def toDot_def)

lemma join_loop_returns:
  "\<forall>k \<in> set ts \<union> set os. \<not> isl (fromString k) \<Longrightarrow>
   \<exists>ds'. join_loop lc tc oc ods ts os ds = Inr ds'"
proof (induction lc tc oc ods ts os ds rule: join_loop.induct)
  case (1 lc tc oc ods ds)
  then show ?case by simp
next
  case (2 lc tc oc ods t ts ds)
  then obtain d where "fromString t = Inr d" by (auto simp: not_isl_iff)
  from dotIn_returns[OF this, of oc] obtain b where b: "dotIn oc (DotString t) = Inr b" ..
  with 2 show ?case by auto
next
  case (3 lc tc oc ods o' os ds)
  then obtain d where "fromString o' = Inr d" by (auto simp: not_isl_iff)
  from dotIn_returns[OF this, of tc] obtain b where b: "dotIn tc (DotString o') = Inr b" ..
  with 3 show ?case by auto
next
  case (4 lc tc oc ods t ts o' os ds)
  from "4.prems" obtain dt do' where p: "fromString t = Inr dt" "fromString o' = Inr do'"
    by (auto simp: not_isl_iff)
  from dotIn_returns[OF p(1), of oc] obtain b1 where b1: "dotIn oc (DotString t) = Inr b1" ..
  from dotIn_returns[OF p(2), of tc] obtain b2 where b2: "dotIn tc (DotString o') = Inr b2" ..
  from compare_returns[OF p(2) p(1), of lc] obtain c where c: "compare lc (DotString o') (DotString t) = Inr c" ..
  show ?case
  proof (cases "js_lt t o'")
    case True
    with "4.IH"(1)[OF True b1] "4.prems" b1 show ?thesis by auto
  next
    case False
    show ?thesis
    proof (cases "c < 0")
      case True
      with "4.IH"(2)[OF False c True b2] "4.prems" False c b2 show ?thesis by auto
    next
      case c0: False
      with "4.IH"(3)[OF False c c0] "4.prems" False c show ?thesis by auto
    qed
  qed
qed

lemma set_insort_dots: "set (insort_dots lc x ys) = insert x (set ys)"
  by (induction ys) auto

lemma set_foldr_insort_dots: "set (foldr (insort_dots lc) ks []) = set ks"
  by (induction ks) (auto simp: set_insort_dots)

lemma sort_dots_returns:
  assumes "\<forall>k \<in> set ks. \<not> isl (fromString k)"
  shows "\<exists>ks'. sort_dots lc ks = Inr ks' \<and> set ks' = set ks"
  using assms by (auto simp: sort_dots_def set_foldr_insort_dots)

lemma sort_dots_short: "length ks \<le> 1 \<Longrightarrow> sort_dots lc ks = Inr ks"
  by (simp add: sort_dots_def)

lemma set_Set_add: "set (Set_add x xs) = insert x (set xs)"
  by (auto simp: Set_add_def)

lemma join_cloud_spec:
  "\<forall>k \<in> set ks. \<not> isl (fromString k) \<Longrightarrow>
   \<exists>ctx'. join_cloud ctx ks = Inr ctx' \<and>
          compactCausalContext ctx' = compactCausalContext ctx \<and>
          set (dotCloud ctx') = set (dotCloud ctx) \<union> canonical ` set ks"
proof (induction ks arbitrary: ctx)
  case Nil
  then show ?case by simp
next
  case (Cons k ks)
  then obtain d where d: "fromString k = Inr d" by (auto simp: not_isl_iff)
  let ?c1 = "ctx\<lparr>dotCloud := Set_add (dot_toString d) (dotCloud ctx)\<rparr>"
  have i: "insertDot ctx (DotString k) False = Inr ?c1"
    using d by (simp add: insertDot_def toString_static_def toDot_def)
  from Cons.IH[of ?c1] Cons.prems obtain ctx' where
    "join_cloud ?c1 ks = Inr ctx'" "compactCausalContext ctx' = compactCausalContext ?c1"
    "set (dotCloud ctx') = set (dotCloud ?c1) \<union> canonical ` set ks" by auto
  with i d show ?case by (auto simp: set_Set_add canonical_def)
qed


lemma compact_cloud_subset:
  "compact ctx = Inr ctx' \<Longrightarrow> set (dotCloud ctx') \<subseteq> set (dotCloud ctx)"
proof (induction ctx rule: compact.induct)
  case (1 ctx)
  from "1.prems" obtain cc del flag where
    p: "compact_pass (dotCloud ctx) (compactCausalContext ctx) [] False = Inr (cc, del, flag)"
    by (subst (asm) compact.simps) (auto split: sum.splits)
  let ?next = "\<lparr>compactCausalContext = cc, dotCloud = fold Set_delete del (dotCloud ctx)\<rparr>"
  show ?case
  proof (cases flag)
    case True
    from "1.prems" p True have "compact ?next = Inr ctx'"
      by (subst (asm) compact.simps) simp
    from "1.IH"[OF p refl refl refl True this] show ?thesis
      by (auto simp: fold_Set_delete)
  next
    case False
    from "1.prems" p False have "ctx' = ?next"
      by (subst (asm) compact.simps) simp
    then show ?thesis by (auto simp: fold_Set_delete)
  qed
qed

lemma cloud_parses_canonical:
  "\<forall>k \<in> set ks. \<not> isl (fromString k) \<Longrightarrow> \<forall>s \<in> canonical ` set ks. \<not> isl (fromString s)"
  by (auto simp: not_isl_iff dest: fromString_canonical)

lemma compact_returns_parses:
  "cloud_parses ctx \<Longrightarrow> \<exists>ctx'. compact ctx = Inr ctx' \<and> cloud_parses ctx'"
proof -
  assume p: "cloud_parses ctx"
  then have "\<forall>s \<in> set (dotCloud ctx). \<exists>d. fromString s = Inr d"
    by (simp add: cloud_parses_def not_isl_iff)
  from compact_returns[OF this] obtain ctx' where c: "compact ctx = Inr ctx'" ..
  from compact_cloud_subset[OF c] p have "cloud_parses ctx'"
    by (auto simp: cloud_parses_def)
  with c show ?thesis by blast
qed

lemma DotContext_join_returns:
  assumes "cloud_parses a" "cloud_parses b"
  shows "\<exists>c. DotContext_join a b = Inr c \<and> cloud_parses c"
proof -
  let ?a1 = "a\<lparr>compactCausalContext := join_cc (compactCausalContext a) (compactCausalContext b)\<rparr>"
  from assms(2) have pb: "\<forall>k \<in> set (dotCloud b). \<not> isl (fromString k)"
    by (simp add: cloud_parses_def)
  from join_cloud_spec[OF pb, of ?a1] obtain c1 where
    c1: "join_cloud ?a1 (dotCloud b) = Inr c1"
    "set (dotCloud c1) = set (dotCloud ?a1) \<union> canonical ` set (dotCloud b)" by auto
  have "cloud_parses c1"
    using assms(1) cloud_parses_canonical[OF pb] c1(2)
    by (auto simp: cloud_parses_def)
  from compact_returns_parses[OF this] c1(1) show ?thesis
    by (auto simp: DotContext_join_def)
qed


section \<open>Effects of the kernel operations on the heap\<close>

lemma new_DotKernel_None:
  "new_DotKernel h None =
     (length (kernels h),
      \<lparr>contexts = contexts h @ [new_DotContext],
       kernels = kernels h @ [empty_kernel (length (contexts h))]\<rparr>)"
  by (simp add: new_DotKernel_eq empty_kernel_def)

lemma rmv_all_effect:
  assumes k: "k < length (kernels h)"
    and keys: "\<forall>key \<in> fst ` set (dataStorage (kernels h ! k)). \<not> isl (fromString key)"
  shows "\<exists>rc. cloud_parses rc \<and>
     DotKernel_rmv stringify h k Undefined =
       Inr (length (kernels h),
            \<lparr>contexts = contexts h @ [rc],
             kernels = (kernels h)[k := (kernels h ! k)\<lparr>dataStorage := []\<rparr>]
                        @ [empty_kernel (length (contexts h))]\<rparr>)"
proof -
  let ?K = "kernels h ! k"
  from keys have kp: "\<forall>key \<in> set (map fst (dataStorage ?K)). \<not> isl (fromString key)" by simp
  from join_cloud_spec[OF kp, of new_DotContext] obtain rc1 where
    rc1: "join_cloud new_DotContext (map fst (dataStorage ?K)) = Inr rc1"
    "set (dotCloud rc1) = set (dotCloud new_DotContext) \<union> canonical ` set (map fst (dataStorage ?K))"
    by auto
  have "cloud_parses rc1"
    using cloud_parses_canonical[OF kp] rc1(2)
    by (auto simp: cloud_parses_def new_DotContext_def)
  from compact_returns_parses[OF this] obtain rc2 where
    rc2: "compact rc1 = Inr rc2" "cloud_parses rc2" by auto
  have "DotKernel_rmv stringify h k Undefined =
       Inr (length (kernels h),
            \<lparr>contexts = contexts h @ [rc2],
             kernels = (kernels h)[k := ?K\<lparr>dataStorage := []\<rparr>]
                        @ [empty_kernel (length (contexts h))]\<rparr>)"
    using k rc1(1) rc2(1)
    by (simp add: DotKernel_rmv_def new_DotKernel_None get_kernel_def get_context_def
        nth_append empty_kernel_def set_context_def set_kernel_def list_update_append)
  with rc2(2) show ?thesis by blast
qed

lemma compact_single:
  assumes "fromString s = Inr d"
  shows "\<exists>c. compact \<lparr>compactCausalContext = [], dotCloud = [s]\<rparr> = Inr c \<and> cloud_parses c"
  using compact_returns_parses[of "\<lparr>compactCausalContext = [], dotCloud = [s]\<rparr>"] assms
  by (simp add: cloud_parses_def)

lemma add_effect:
  assumes k: "k < length (kernels h)"
    and sc: "sharedContext (kernels h ! k) < length (contexts h)"
    and wf: "ident \<noteq> []" "CHR '':'' \<notin> set ident"
  shows "\<exists>ac. cloud_parses ac \<and>
     DotKernel_add h k ident val =
       Inr (length (kernels h),
            \<lparr>contexts = (contexts h)[sharedContext (kernels h ! k) :=
                           snd (makeDot (contexts h ! sharedContext (kernels h ! k)) ident)]
                         @ [ac],
             kernels = (kernels h)[k := (kernels h ! k)\<lparr>dataStorage :=
                           AList.update
                             (dot_toString (fst (makeDot (contexts h ! sharedContext (kernels h ! k)) ident)))
                             val (dataStorage (kernels h ! k))\<rparr>]
                        @ [\<lparr>dataStorage =
                              [(dot_toString (fst (makeDot (contexts h ! sharedContext (kernels h ! k)) ident)), val)],
                            sharedContext = length (contexts h),
                            contextBase = length (contexts h)\<rparr>]\<rparr>)"
proof -
  let ?K = "kernels h ! k"
  let ?sc = "contexts h ! sharedContext ?K"
  let ?dot = "fst (makeDot ?sc ident)"
  have id: "dot_id ?dot = ident" by (simp add: makeDot_def Let_def)
  have p: "fromString (dot_toString ?dot) = Inr ?dot"
    using wf id by (simp add: fromString_dot_toString)
  from compact_single[OF p] obtain ac where
    ac: "compact \<lparr>compactCausalContext = [], dotCloud = [dot_toString ?dot]\<rparr> = Inr ac"
    "cloud_parses ac" by auto
  have ins: "insertDot new_DotContext (DotObject ?dot) True = Inr ac"
    using ac(1) by (simp add: insertDot_def toString_static_def toDot_def new_DotContext_def Set_add_def)
  have "DotKernel_add h k ident val =
       Inr (length (kernels h),
            \<lparr>contexts = (contexts h)[sharedContext ?K := snd (makeDot ?sc ident)] @ [ac],
             kernels = (kernels h)[k := ?K\<lparr>dataStorage :=
                           AList.update (dot_toString ?dot) val (dataStorage ?K)\<rparr>]
                        @ [\<lparr>dataStorage = [(dot_toString ?dot, val)],
                            sharedContext = length (contexts h),
                            contextBase = length (contexts h)\<rparr>]\<rparr>)"
    using k sc ins
    by (simp add: DotKernel_add_def new_DotKernel_None get_kernel_def get_context_def
        nth_append empty_kernel_def set_context_def set_kernel_def list_update_append
        toString_static_def toDot_def case_prod_beta)
  with ac(2) show ?thesis by blast
qed

lemma DotContext_join_ref_frame:
  assumes "DotContext_join_ref h a b = Inr h'"
  shows "kernels h' = kernels h" and "get_context h' b = get_context h b"
  using assms
  by (auto simp: DotContext_join_ref_def bind_err_Inr_iff set_context_def get_context_def
      split: if_splits)

lemma DotContext_join_ref_returns:
  assumes "a < length (contexts h)" "b < length (contexts h)"
    "cloud_parses (contexts h ! a)" "cloud_parses (contexts h ! b)"
  shows "\<exists>h'. DotContext_join_ref h a b = Inr h'"
proof (cases "a = b")
  case True
  then show ?thesis by (simp add: DotContext_join_ref_def)
next
  case False
  from DotContext_join_returns[OF assms(3,4)] obtain c where
    "DotContext_join (contexts h ! a) (contexts h ! b) = Inr c" by auto
  with False assms(1,2) show ?thesis
    by (simp add: DotContext_join_ref_def get_context_def)
qed

lemma join_returns:
  assumes ne: "a \<noteq> b"
    and a: "a < length (kernels h)" and b: "b < length (kernels h)"
    and sa: "sharedContext (kernels h ! a) < length (contexts h)"
    and sb: "sharedContext (kernels h ! b) < length (contexts h)"
    and ka: "\<forall>key \<in> fst ` set (dataStorage (kernels h ! a)). \<not> isl (fromString key)"
    and kb: "\<forall>key \<in> fst ` set (dataStorage (kernels h ! b)). \<not> isl (fromString key)"
    and ca: "cloud_parses (contexts h ! sharedContext (kernels h ! a))"
    and cb: "cloud_parses (contexts h ! sharedContext (kernels h ! b))"
  shows "\<exists>h'. DotKernel_join lc h a b = Inr h'"
proof -
  let ?A = "kernels h ! a" and ?B = "kernels h ! b"
  from ka have ka': "\<forall>k \<in> set (map fst (dataStorage ?A)). \<not> isl (fromString k)" by simp
  from kb have kb': "\<forall>k \<in> set (map fst (dataStorage ?B)). \<not> isl (fromString k)" by simp
  from sort_dots_returns[OF ka', of lc] obtain ts where
    ts: "sort_dots lc (map fst (dataStorage ?A)) = Inr ts" "set ts = set (map fst (dataStorage ?A))"
    by auto
  from sort_dots_returns[OF kb', of lc] obtain os where
    os: "sort_dots lc (map fst (dataStorage ?B)) = Inr os" "set os = set (map fst (dataStorage ?B))"
    by auto
  have "\<forall>k \<in> set ts \<union> set os. \<not> isl (fromString k)"
    using ts(2) os(2) ka' kb' by auto
  from join_loop_returns[OF this, of lc "contexts h ! sharedContext ?A"
      "contexts h ! sharedContext ?B" "dataStorage ?B" "dataStorage ?A"]
  obtain ds' where ds': "join_loop lc (contexts h ! sharedContext ?A)
      (contexts h ! sharedContext ?B) (dataStorage ?B) ts os (dataStorage ?A) = Inr ds'" ..
  let ?h1 = "set_kernel h a (?A\<lparr>dataStorage := ds'\<rparr>)"
  have "\<exists>h'. DotContext_join_ref ?h1 (sharedContext ?A) (sharedContext ?B) = Inr h'"
    by (rule DotContext_join_ref_returns) (use sa sb ca cb in \<open>simp_all add: set_kernel_def\<close>)
  then show ?thesis
    using ne a b sa sb ts(1) os(1) ds'
    by (simp add: DotKernel_join_def get_kernel_def get_context_def)
qed

lemma join_frame:
  assumes "DotKernel_join lc h a b = Inr h'"
  shows "length (kernels h') = length (kernels h)"
    and "k \<noteq> a \<Longrightarrow> kernels h' ! k = kernels h ! k"
proof -
  show "length (kernels h') = length (kernels h)"
  proof (cases "a = b")
    case True
    with assms show ?thesis by (simp add: DotKernel_join_def)
  next
    case False
    with assms obtain K ds' sa sb where
      j: "DotContext_join_ref (set_kernel h a (K\<lparr>dataStorage := ds'\<rparr>)) sa sb = Inr h'"
      by (auto simp: DotKernel_join_def bind_err_Inr_iff)
    from DotContext_join_ref_frame(1)[OF j] show ?thesis by (simp add: set_kernel_def)
  qed
  show "k \<noteq> a \<Longrightarrow> kernels h' ! k = kernels h ! k"
  proof (cases "a = b")
    case True
    with assms show ?thesis by (simp add: DotKernel_join_def)
  next
    case False
    assume "k \<noteq> a"
    from False assms obtain K ds' sa sb where
      j: "DotContext_join_ref (set_kernel h a (K\<lparr>dataStorage := ds'\<rparr>)) sa sb = Inr h'"
      by (auto simp: DotKernel_join_def bind_err_Inr_iff)
    from DotContext_join_ref_frame(1)[OF j] \<open>k \<noteq> a\<close> show ?thesis by (simp add: set_kernel_def)
  qed
qed


section \<open>What \<open>join\<close> writes\<close>





lemma deref_Inr_iff: "deref xs r = Inr x \<longleftrightarrow> r < length xs \<and> xs ! r = x"
  by (auto simp: deref_def)





section \<open>The store without sharing\<close>

text \<open>
  On a store in which no two objects hold one collection, a join that returns is the join
  of the heap of objects that own their collections.
\<close>

lemma heap_of_get_kernel:
  "deref (kernel_objects s) k = Inr K \<Longrightarrow> get_kernel (heap_of s) k = Inr (ker_of s K)"
  by (auto simp: deref_def get_kernel_def heap_of_def split: if_splits)

lemma heap_of_get_context:
  "deref (context_objects s) c = Inr obj \<Longrightarrow> get_context (heap_of s) c = Inr (ctx_of s obj)"
  by (auto simp: deref_def get_context_def heap_of_def split: if_splits)

lemma load_context_ctx_of:
  "load_context s c = Inr ctx \<Longrightarrow>
     \<exists>obj. deref (context_objects s) c = Inr obj \<and> ctx = ctx_of s obj"
  by (auto simp: load_context_def bind_err_Inr_iff deref_def ctx_of_def split: if_splits)

lemma heap_of_storage_update:
  assumes u: "unshared s" and K: "deref (kernel_objects s) k = Inr K"
  shows "heap_of (s\<lparr>storage_maps := (storage_maps s)[storageMap K := ds']\<rparr>)
         = set_kernel (heap_of s) k ((ker_of s K)\<lparr>dataStorage := ds'\<rparr>)"
proof -
  let ?s1 = "s\<lparr>storage_maps := (storage_maps s)[storageMap K := ds']\<rparr>"
  let ?ks = "kernel_objects s"
  from K have k: "k < length ?ks" and Kk: "?ks ! k = K" by (auto simp: deref_def split: if_splits)
  from u have d: "distinct (map storageMap ?ks)"
    and r: "\<forall>K' \<in> set ?ks. storageMap K' < length (storage_maps s)"
    by (simp_all add: unshared_def)
  have c: "map (ctx_of ?s1) (context_objects s) = map (ctx_of s) (context_objects s)"
    by (simp add: ctx_of_def)
  have "map (ker_of ?s1) ?ks = (map (ker_of s) ?ks)[k := (ker_of s K)\<lparr>dataStorage := ds'\<rparr>]"
  proof (rule nth_equalityI)
    show "length (map (ker_of ?s1) ?ks)
          = length ((map (ker_of s) ?ks)[k := (ker_of s K)\<lparr>dataStorage := ds'\<rparr>])" by simp
  next
    fix j assume "j < length (map (ker_of ?s1) ?ks)"
    then have j: "j < length ?ks" by simp
    show "map (ker_of ?s1) ?ks ! j
          = (map (ker_of s) ?ks)[k := (ker_of s K)\<lparr>dataStorage := ds'\<rparr>] ! j"
    proof (cases "j = k")
      case True
      from r k Kk have "storageMap K < length (storage_maps s)" by auto
      with True k Kk show ?thesis by (simp add: ker_of_def)
    next
      case False
      with d k j have "storageMap (?ks ! j) \<noteq> storageMap (?ks ! k)"
        by (metis distinct_conv_nth length_map nth_map)
      with False j Kk show ?thesis by (simp add: ker_of_def)
    qed
  qed
  with c show ?thesis by (simp add: heap_of_def set_kernel_def)
qed

lemma heap_of_write_context:
  assumes u: "unshared s" and obj: "deref (context_objects s) c = Inr obj"
  shows "heap_of (write_context s obj ctx) = set_context (heap_of s) c ctx"
proof -
  let ?s1 = "write_context s obj ctx"
  let ?cs = "context_objects s"
  from obj have c: "c < length ?cs" and oc: "?cs ! c = obj"
    by (auto simp: deref_def split: if_splits)
  from u have d1: "distinct (map ccMap ?cs)" and d2: "distinct (map cloudSet ?cs)"
    and r: "\<forall>obj' \<in> set ?cs. ccMap obj' < length (cc_maps s) \<and> cloudSet obj' < length (cloud_sets s)"
    by (simp_all add: unshared_def)
  have k: "map (ker_of ?s1) (kernel_objects s) = map (ker_of s) (kernel_objects s)"
    by (simp add: ker_of_def write_context_def)
  have "map (ctx_of ?s1) ?cs = (map (ctx_of s) ?cs)[c := ctx]"
  proof (rule nth_equalityI)
    show "length (map (ctx_of ?s1) ?cs) = length ((map (ctx_of s) ?cs)[c := ctx])" by simp
  next
    fix j assume "j < length (map (ctx_of ?s1) ?cs)"
    then have j: "j < length ?cs" by simp
    show "map (ctx_of ?s1) ?cs ! j = (map (ctx_of s) ?cs)[c := ctx] ! j"
    proof (cases "j = c")
      case True
      from r c oc have "ccMap obj < length (cc_maps s)" "cloudSet obj < length (cloud_sets s)"
        by auto
      with True c oc show ?thesis by (simp add: ctx_of_def write_context_def)
    next
      case False
      with d1 d2 c j have "ccMap (?cs ! j) \<noteq> ccMap (?cs ! c)" "cloudSet (?cs ! j) \<noteq> cloudSet (?cs ! c)"
        by (metis distinct_conv_nth length_map nth_map)+
      with False j oc show ?thesis by (simp add: ctx_of_def write_context_def)
    qed
  qed
  with k show ?thesis
    by (simp add: heap_of_def set_context_def write_context_def)
qed

lemma unshared_storage_update:
  "unshared s \<Longrightarrow> unshared (s\<lparr>storage_maps := (storage_maps s)[r := ds']\<rparr>)"
  by (simp add: unshared_def)

lemma DotContext_join_store_refines:
  assumes u: "unshared s" and run: "DotContext_join_store s a b = Inr s'"
  shows "DotContext_join_ref (heap_of s) a b = Inr (heap_of s')"
proof (cases "a = b")
  case True
  with run show ?thesis by (simp add: DotContext_join_store_def DotContext_join_ref_def)
next
  case False
  with run obtain obj tc oc tc' where
    o: "deref (context_objects s) a = Inr obj" and tc: "load_context s a = Inr tc"
    and oc: "load_context s b = Inr oc" and j: "DotContext_join tc oc = Inr tc'"
    and s': "s' = write_context s obj tc'"
    by (auto simp: DotContext_join_store_def bind_err_Inr_iff)
  from load_context_ctx_of[OF tc] o have ga: "get_context (heap_of s) a = Inr tc"
    by (auto simp: heap_of_get_context)
  from load_context_ctx_of[OF oc] have gb: "get_context (heap_of s) b = Inr oc"
    by (auto simp: heap_of_get_context)
  show ?thesis
    using False ga gb j heap_of_write_context[OF u o, of tc'] unfolding s'
    by (simp add: DotContext_join_ref_def)
qed

lemma DotKernel_join_store_refines:
  assumes u: "unshared s" and run: "DotKernel_join_store lc s a b = Inr s'"
  shows "DotKernel_join lc (heap_of s) a b = Inr (heap_of s')"
proof (cases "a = b")
  case True
  with run show ?thesis by (simp add: DotKernel_join_store_def DotKernel_join_def)
next
  case False
  with run obtain A B ds otherDs thisDots otherDots thisCtx otherCtx ds' where
    A: "deref (kernel_objects s) a = Inr A" and B: "deref (kernel_objects s) b = Inr B"
    and ds: "deref (storage_maps s) (storageMap A) = Inr ds"
    and ods: "deref (storage_maps s) (storageMap B) = Inr otherDs"
    and td: "sort_dots lc (map fst ds) = Inr thisDots"
    and od: "sort_dots lc (map fst otherDs) = Inr otherDots"
    and tc: "load_context s (sharedCtx A) = Inr thisCtx"
    and oc: "load_context s (sharedCtx B) = Inr otherCtx"
    and loop: "join_loop lc thisCtx otherCtx otherDs thisDots otherDots ds = Inr ds'"
    and j: "DotContext_join_store (s\<lparr>storage_maps := (storage_maps s)[storageMap A := ds']\<rparr>)
              (sharedCtx A) (sharedCtx B) = Inr s'"
    by (auto simp: DotKernel_join_store_def bind_err_Inr_iff)
  let ?s1 = "s\<lparr>storage_maps := (storage_maps s)[storageMap A := ds']\<rparr>"
  have dA: "dataStorage (ker_of s A) = ds" and dB: "dataStorage (ker_of s B) = otherDs"
    using ds ods by (auto simp: ker_of_def deref_def split: if_splits)
  have sA: "sharedContext (ker_of s A) = sharedCtx A" "sharedContext (ker_of s B) = sharedCtx B"
    by (simp_all add: ker_of_def)
  from load_context_ctx_of[OF tc] have ga: "get_context (heap_of s) (sharedCtx A) = Inr thisCtx"
    by (auto simp: heap_of_get_context)
  from load_context_ctx_of[OF oc] have gb: "get_context (heap_of s) (sharedCtx B) = Inr otherCtx"
    by (auto simp: heap_of_get_context)
  from DotContext_join_store_refines[OF unshared_storage_update[OF u] j]
  have "DotContext_join_ref (heap_of ?s1) (sharedCtx A) (sharedCtx B) = Inr (heap_of s')" .
  then have "DotContext_join_ref (set_kernel (heap_of s) a ((ker_of s A)\<lparr>dataStorage := ds'\<rparr>))
               (sharedCtx A) (sharedCtx B) = Inr (heap_of s')"
    by (simp add: heap_of_storage_update[OF u A])
  then show ?thesis
    using False heap_of_get_kernel[OF A] heap_of_get_kernel[OF B] dA dB sA td od ga gb loop
    by (simp add: DotKernel_join_def)
qed

lemma DotKernel_deepJoin_store_refines:
  assumes u: "unshared s"
    and run: "DotKernel_deepJoin_store lc stringify methods s a b = Inr s'"
  shows "DotKernel_deepJoin lc stringify methods (heap_of s) a b = Inr (heap_of s')"
proof (cases "a = b")
  case True
  with run show ?thesis by (simp add: DotKernel_deepJoin_store_def DotKernel_deepJoin_def)
next
  case False
  with run obtain A B ds otherDs thisDots otherDots thisCtx otherCtx ds' where
    A: "deref (kernel_objects s) a = Inr A" and B: "deref (kernel_objects s) b = Inr B"
    and ds: "deref (storage_maps s) (storageMap A) = Inr ds"
    and ods: "deref (storage_maps s) (storageMap B) = Inr otherDs"
    and td: "sort_dots lc (map fst ds) = Inr thisDots"
    and od: "sort_dots lc (map fst otherDs) = Inr otherDots"
    and tc: "load_context s (sharedCtx A) = Inr thisCtx"
    and oc: "load_context s (sharedCtx B) = Inr otherCtx"
    and loop: "deepJoin_loop stringify methods thisCtx otherCtx otherDs thisDots otherDots ds
                 = Inr ds'"
    and j: "DotContext_join_store (s\<lparr>storage_maps := (storage_maps s)[storageMap A := ds']\<rparr>)
              (sharedCtx A) (sharedCtx B) = Inr s'"
    by (auto simp: DotKernel_deepJoin_store_def bind_err_Inr_iff)
  let ?s1 = "s\<lparr>storage_maps := (storage_maps s)[storageMap A := ds']\<rparr>"
  have dA: "dataStorage (ker_of s A) = ds" and dB: "dataStorage (ker_of s B) = otherDs"
    using ds ods by (auto simp: ker_of_def deref_def split: if_splits)
  have sA: "sharedContext (ker_of s A) = sharedCtx A" "sharedContext (ker_of s B) = sharedCtx B"
    by (simp_all add: ker_of_def)
  from load_context_ctx_of[OF tc] have ga: "get_context (heap_of s) (sharedCtx A) = Inr thisCtx"
    by (auto simp: heap_of_get_context)
  from load_context_ctx_of[OF oc] have gb: "get_context (heap_of s) (sharedCtx B) = Inr otherCtx"
    by (auto simp: heap_of_get_context)
  from DotContext_join_store_refines[OF unshared_storage_update[OF u] j]
  have "DotContext_join_ref (heap_of ?s1) (sharedCtx A) (sharedCtx B) = Inr (heap_of s')" .
  then have "DotContext_join_ref (set_kernel (heap_of s) a ((ker_of s A)\<lparr>dataStorage := ds'\<rparr>))
               (sharedCtx A) (sharedCtx B) = Inr (heap_of s')"
    by (simp add: heap_of_storage_update[OF u A])
  then show ?thesis
    using False heap_of_get_kernel[OF A] heap_of_get_kernel[OF B] dA dB sA td od ga gb loop
    by (simp add: DotKernel_deepJoin_def)
qed

section \<open>A local write on a register\<close>

text \<open>
  C6. For a register with a well-formed replica id (non-empty, without \<open>:\<close>) whose kernel
  and context exist and whose stored keys parse, whatever it holds (nothing, one value or
  several), \<open>write(v)\<close> returns and \<open>read()\<close> is \<open>{v}\<close> afterwards.
\<close>

theorem MVReg_write_then_read:
  assumes k: "dotKernel r < length (kernels h)"
    and sc: "sharedContext (kernels h ! dotKernel r) < length (contexts h)"
    and rid: "reg_id r = Some ident"
    and wf: "ident \<noteq> []" "CHR '':'' \<notin> set ident"
    and kp: "keys_parse (dataStorage (kernels h ! dotKernel r))"
  shows "\<exists>delta h'. MVReg_write lc stringify h r v = Inr (delta, h') \<and> MVReg_read h' r = Inr {v}"
proof -
  from kp have keys:
    "\<forall>key \<in> fst ` set (dataStorage (kernels h ! dotKernel r)). \<not> isl (fromString key)"
    by (simp add: keys_parse_def)
  let ?k = "dotKernel r"
  let ?h2 = "\<lparr>contexts = contexts h @ [new_DotContext, new_DotContext],
             kernels = kernels h @ [empty_kernel (length (contexts h)),
                                    empty_kernel (Suc (length (contexts h)))]\<rparr>"
  have k2: "?k < length (kernels ?h2)" using k by simp
  have K2: "kernels ?h2 ! ?k = kernels h ! ?k" using k by (simp add: nth_append)
  have keys2: "\<forall>key \<in> fst ` set (dataStorage (kernels ?h2 ! ?k)). \<not> isl (fromString key)"
    using keys K2 by simp
  from rmv_all_effect[OF k2 keys2, of stringify] obtain rc where
    rc: "cloud_parses rc" and
    rmv: "DotKernel_rmv stringify ?h2 ?k Undefined =
       Inr (length (kernels ?h2),
            \<lparr>contexts = contexts ?h2 @ [rc],
             kernels = (kernels ?h2)[?k := (kernels ?h2 ! ?k)\<lparr>dataStorage := []\<rparr>]
                        @ [empty_kernel (length (contexts ?h2))]\<rparr>)"
    by blast
  let ?h3 = "\<lparr>contexts = contexts ?h2 @ [rc],
             kernels = (kernels ?h2)[?k := (kernels ?h2 ! ?k)\<lparr>dataStorage := []\<rparr>]
                        @ [empty_kernel (length (contexts ?h2))]\<rparr>"
  have k3: "?k < length (kernels ?h3)" using k by simp
  have K3: "kernels ?h3 ! ?k = (kernels h ! ?k)\<lparr>dataStorage := []\<rparr>"
    using k by (simp add: nth_append)
  have sc3: "sharedContext (kernels ?h3 ! ?k) < length (contexts ?h3)"
    using sc k by (simp add: nth_append)
  from add_effect[OF k3 sc3 wf, of v] obtain ac where
    ac: "cloud_parses ac" and
    add: "DotKernel_add ?h3 ?k ident v =
       Inr (length (kernels ?h3),
            \<lparr>contexts = (contexts ?h3)[sharedContext (kernels ?h3 ! ?k) :=
                           snd (makeDot (contexts ?h3 ! sharedContext (kernels ?h3 ! ?k)) ident)]
                         @ [ac],
             kernels = (kernels ?h3)[?k := (kernels ?h3 ! ?k)\<lparr>dataStorage :=
                           AList.update
                             (dot_toString (fst (makeDot (contexts ?h3 ! sharedContext (kernels ?h3 ! ?k)) ident)))
                             v (dataStorage (kernels ?h3 ! ?k))\<rparr>]
                        @ [\<lparr>dataStorage =
                              [(dot_toString (fst (makeDot (contexts ?h3 ! sharedContext (kernels ?h3 ! ?k)) ident)), v)],
                            sharedContext = length (contexts ?h3),
                            contextBase = length (contexts ?h3)\<rparr>]\<rparr>)"
    by blast
  let ?dot = "fst (makeDot (contexts ?h3 ! sharedContext (kernels ?h3 ! ?k)) ident)"
  let ?h4 = "\<lparr>contexts = (contexts ?h3)[sharedContext (kernels ?h3 ! ?k) :=
                           snd (makeDot (contexts ?h3 ! sharedContext (kernels ?h3 ! ?k)) ident)]
                         @ [ac],
             kernels = (kernels ?h3)[?k := (kernels ?h3 ! ?k)\<lparr>dataStorage :=
                           AList.update (dot_toString ?dot) v (dataStorage (kernels ?h3 ! ?k))\<rparr>]
                        @ [\<lparr>dataStorage = [(dot_toString ?dot, v)],
                            sharedContext = length (contexts ?h3),
                            contextBase = length (contexts ?h3)\<rparr>]\<rparr>"
  let ?rk = "length (kernels ?h2)" and ?ak = "length (kernels ?h3)"
  have id: "dot_id ?dot = ident" by (simp add: makeDot_def Let_def)
  have p: "fromString (dot_toString ?dot) = Inr ?dot"
    using wf id by (simp add: fromString_dot_toString)
  have Krk: "kernels ?h4 ! ?rk = empty_kernel (length (contexts ?h2))"
    using k by (simp add: nth_append)
  have Kak: "kernels ?h4 ! ?ak = \<lparr>dataStorage = [(dot_toString ?dot, v)],
                            sharedContext = length (contexts ?h3),
                            contextBase = length (contexts ?h3)\<rparr>"
    by (simp add: nth_append)
  have Kk: "kernels ?h4 ! ?k = (kernels h ! ?k)\<lparr>dataStorage := [(dot_toString ?dot, v)]\<rparr>"
    using k by (simp add: nth_append)
  have crk: "contexts ?h4 ! length (contexts ?h2) = rc"
    using sc k by (simp add: nth_append)
  have cak: "contexts ?h4 ! length (contexts ?h3) = ac"
    by (simp add: nth_append)
  have "\<exists>h5. DotKernel_join lc ?h4 ?rk ?ak = Inr h5"
  proof (rule join_returns)
    show "?rk \<noteq> ?ak" by simp
    show "?rk < length (kernels ?h4)" by simp
    show "?ak < length (kernels ?h4)" by simp
    show "sharedContext (kernels ?h4 ! ?rk) < length (contexts ?h4)"
      unfolding Krk by (simp add: empty_kernel_def)
    show "sharedContext (kernels ?h4 ! ?ak) < length (contexts ?h4)"
      unfolding Kak by simp
    show "\<forall>key\<in>fst ` set (dataStorage (kernels ?h4 ! ?rk)). \<not> isl (fromString key)"
      unfolding Krk by (simp add: empty_kernel_def)
    show "\<forall>key\<in>fst ` set (dataStorage (kernels ?h4 ! ?ak)). \<not> isl (fromString key)"
      unfolding Kak using p by simp
    show "cloud_parses (contexts ?h4 ! sharedContext (kernels ?h4 ! ?rk))"
      unfolding Krk using crk rc by (simp add: empty_kernel_def)
    show "cloud_parses (contexts ?h4 ! sharedContext (kernels ?h4 ! ?ak))"
      unfolding Kak using cak ac by simp
  qed
  then obtain h5 where j: "DotKernel_join lc ?h4 ?rk ?ak = Inr h5" ..
  have ne: "?k \<noteq> ?rk" using k by simp
  from join_frame[OF j] ne have l5: "length (kernels h5) = length (kernels ?h4)"
    and K5: "kernels h5 ! ?k = kernels ?h4 ! ?k" by auto
  have w: "MVReg_write lc stringify h r v = Inr (\<lparr>dotKernel = ?rk, reg_id = None\<rparr>, h5)"
    using rmv add j rid
    by (simp add: MVReg_write_def new_MVReg_def new_DotKernel_None MVReg_join_def)
  have "MVReg_read h5 r = Inr {v}"
    using k l5 K5 Kk by (simp add: MVReg_read_def get_kernel_def)
  with w show ?thesis by blast
qed


theorem MVReg_write_then_read_witness:
  "dotKernel register_n1 < length (kernels register_heap) \<and>
   sharedContext (kernels register_heap ! dotKernel register_n1)
     < length (contexts register_heap) \<and>
   reg_id register_n1 = Some ''n1'' \<and>
   keys_parse (dataStorage (kernels register_heap ! dotKernel register_n1)) \<and>
   MVReg_read register_heap register_n1 = Inr {Str ''A'', Str ''B''} \<and>
   (\<exists>delta h'. MVReg_write ordinalCompare (\<lambda>v. None) register_heap register_n1 (Str ''C'')
                  = Inr (delta, h') \<and>
               MVReg_read h' register_n1 = Inr {Str ''C''})"
proof -
  have k: "dotKernel register_n1 < length (kernels register_heap)" by code_simp
  have sc: "sharedContext (kernels register_heap ! dotKernel register_n1)
     < length (contexts register_heap)" by code_simp
  have rid: "reg_id register_n1 = Some ''n1''" by code_simp
  have wf: "''n1'' \<noteq> []" "CHR '':'' \<notin> set ''n1''" by simp_all
  have kp: "keys_parse (dataStorage (kernels register_heap ! dotKernel register_n1))"
    by code_simp
  have rd: "MVReg_read register_heap register_n1 = Inr {Str ''A'', Str ''B''}"
    by (simp add: MVReg_read_def register_heap_def register_n1_def get_kernel_def)
  from MVReg_write_then_read[OF k sc rid wf kp, of ordinalCompare "\<lambda>v. None" "Str ''C''"]
    k sc rid kp rd
  show ?thesis by blast
qed


section \<open>Contexts only grow\<close>


lemma cc_le_refl: "cc_le cc cc"
  by (simp add: cc_le_def)

lemma cc_le_trans: "cc_le a b \<Longrightarrow> cc_le b c \<Longrightarrow> cc_le a c"
  unfolding cc_le_def by (meson order_trans)

lemma cc_le_update:
  "(\<And>k. map_of cc i = Some k \<Longrightarrow> k \<le> v) \<Longrightarrow> cc_le cc (AList.update i v cc)"
  by (auto simp: cc_le_def update_conv')

lemma covers_mono: "cc_le cc cc' \<Longrightarrow> covers cc d \<Longrightarrow> covers cc' d"
  unfolding cc_le_def covers_def by (meson order_trans)

lemma compact_pass_mono:
  "compact_pass dc cc del flag = Inr (cc', del', flag') \<Longrightarrow>
   cc_le cc cc' \<and>
   (\<forall>s \<in> set del'. s \<in> set del \<or> (\<exists>d. fromString s = Inr d \<and> covers cc' d))"
proof (induction dc arbitrary: cc del flag)
  case Nil
  then show ?case by (simp add: cc_le_refl)
next
  case (Cons s rest)
  from Cons.prems obtain d where d: "fromString s = Inr d"
    by (auto split: sum.splits)
  show ?case
  proof (cases "map_of cc (dot_id d)")
    case None
    show ?thesis
    proof (cases "counter d = 1")
      case True
      let ?cc1 = "AList.update (dot_id d) (counter d) cc"
      from Cons.prems d None True
      have r: "compact_pass rest ?cc1 (del @ [s]) True = Inr (cc', del', flag')" by simp
      have le1: "cc_le cc ?cc1" using None by (intro cc_le_update) simp
      have c1: "covers ?cc1 d" by (simp add: covers_def update_conv')
      from Cons.IH[OF r] have le2: "cc_le ?cc1 cc'"
        and d2: "\<forall>x \<in> set del'. x \<in> set (del @ [s]) \<or> (\<exists>d. fromString x = Inr d \<and> covers cc' d)"
        by blast+
      have "cc_le cc cc'" using le1 le2 by (rule cc_le_trans)
      moreover have "covers cc' d" using le2 c1 by (rule covers_mono)
      ultimately show ?thesis using d2 d by auto
    next
      case False
      with Cons.prems d None have "compact_pass rest cc del flag = Inr (cc', del', flag')" by simp
      from Cons.IH[OF this] show ?thesis .
    qed
  next
    case (Some k)
    consider "counter d = k + 1" | "counter d \<le> k" | "k + 1 < counter d" by linarith
    then show ?thesis
    proof cases
      case 1
      let ?cc1 = "AList.update (dot_id d) (k + 1) cc"
      from Cons.prems d Some 1
      have r: "compact_pass rest ?cc1 (del @ [s]) True = Inr (cc', del', flag')" by simp
      have le1: "cc_le cc ?cc1" using Some by (intro cc_le_update) simp
      have c1: "covers ?cc1 d" using 1 by (simp add: covers_def update_conv')
      from Cons.IH[OF r] have le2: "cc_le ?cc1 cc'"
        and d2: "\<forall>x \<in> set del'. x \<in> set (del @ [s]) \<or> (\<exists>d. fromString x = Inr d \<and> covers cc' d)"
        by blast+
      have "cc_le cc cc'" using le1 le2 by (rule cc_le_trans)
      moreover have "covers cc' d" using le2 c1 by (rule covers_mono)
      ultimately show ?thesis using d2 d by auto
    next
      case 2
      with Cons.prems d Some
      have r: "compact_pass rest cc (del @ [s]) flag = Inr (cc', del', flag')" by simp
      have c1: "covers cc d" using 2 Some by (simp add: covers_def)
      from Cons.IH[OF r] have le2: "cc_le cc cc'"
        and d2: "\<forall>x \<in> set del'. x \<in> set (del @ [s]) \<or> (\<exists>d. fromString x = Inr d \<and> covers cc' d)"
        by blast+
      have "covers cc' d" using le2 c1 by (rule covers_mono)
      then show ?thesis using le2 d2 d by auto
    next
      case 3
      with Cons.prems d Some have "compact_pass rest cc del flag = Inr (cc', del', flag')" by simp
      from Cons.IH[OF this] show ?thesis .
    qed
  qed
qed




















section \<open>Every operation keeps the kernels anchored\<close>


lemma same_kernel_shape:
  "K \<in> set ks \<Longrightarrow> \<exists>K0 \<in> set ks. sharedContext K = sharedContext K0 \<and>
      fst ` set (dataStorage K) \<subseteq> fst ` set (dataStorage K0)"
  by blast
























section \<open>The merge loop on keys that both comparisons order alike\<close>

lemma js_lt_iff_less: "js_lt a b \<longleftrightarrow> a < b"
proof (induction a b rule: js_lt.induct)
  case (4 x xs y ys)
  have inj: "(of_char x :: nat) = of_char y \<longleftrightarrow> x = y" by simp
  show ?case
    using 4 by (auto simp: less_char_def)
qed simp_all

lemma orders_agree_compare:
  assumes "orders_agree lc ks" "x \<in> set ks" "y \<in> set ks"
  obtains c where "compare lc (DotString x) (DotString y) = Inr c"
    "c < 0 \<longleftrightarrow> x < y" "c = 0 \<longleftrightarrow> x = y"
  using assms unfolding orders_agree_def js_lt_iff_less
  by (cases "compare lc (DotString x) (DotString y)") (auto split: sum.splits)

lemma orders_agree_le_dots:
  assumes "orders_agree lc ks" "x \<in> set ks" "y \<in> set ks"
  shows "le_dots lc x y \<longleftrightarrow> x \<le> y"
proof -
  from orders_agree_compare[OF assms] obtain c where
    c: "compare lc (DotString x) (DotString y) = Inr c" "c < 0 \<longleftrightarrow> x < y" "c = 0 \<longleftrightarrow> x = y" .
  then show ?thesis by (auto simp: le_dots_def)
qed

lemma orders_agree_parses:
  assumes "orders_agree lc ks" "x \<in> set ks"
  shows "\<not> isl (fromString x)"
proof -
  from orders_agree_compare[OF assms assms(2)] obtain c where
    "compare lc (DotString x) (DotString x) = Inr c" by blast
  then show ?thesis by (cases "fromString x") (auto simp: compare_def toDot_def)
qed

lemma insort_dots_eq_insort:
  assumes "orders_agree lc ks" "x \<in> set ks" "set ys \<subseteq> set ks"
  shows "insort_dots lc x ys = insort x ys"
  using assms(3)
proof (induction ys)
  case Nil
  then show ?case by simp
next
  case (Cons y ys)
  then have "le_dots lc x y \<longleftrightarrow> x \<le> y"
    using orders_agree_le_dots[OF assms(1,2), of y] by simp
  with Cons show ?case by simp
qed

lemma foldr_insort_dots_eq_sort:
  assumes "orders_agree lc ks" "set xs \<subseteq> set ks"
  shows "foldr (insort_dots lc) xs [] = sort xs"
  using assms(2)
proof (induction xs)
  case Nil
  then show ?case by simp
next
  case (Cons x xs)
  then have IH: "foldr (insort_dots lc) xs [] = sort xs" by simp
  have "set (sort xs) \<subseteq> set ks" using Cons.prems by simp
  from insort_dots_eq_insort[OF assms(1) _ this, of x] Cons.prems IH
  show ?case by (simp add: sort_key_def)
qed

lemma sort_dots_eq_sort:
  assumes "orders_agree lc ks" "set xs \<subseteq> set ks"
  shows "sort_dots lc xs = Inr (sort xs)"
proof (cases "length xs \<le> 1")
  case True
  then have "sort xs = xs" by (cases xs) (auto simp: sort_key_def)
  with True show ?thesis by (simp add: sort_dots_def)
next
  case False
  have "\<forall>k \<in> set xs. \<not> isl (fromString k)"
    using orders_agree_parses[OF assms(1)] assms(2) by blast
  with False foldr_insort_dots_eq_sort[OF assms] show ?thesis
    by (simp add: sort_dots_def)
qed

lemma dotIn_bool:
  assumes "\<not> isl (fromString s)"
  obtains b where "dotIn c (DotString s) = Inr b"
proof -
  from assms obtain d where "fromString s = Inr d" by (auto simp: not_isl_iff)
  from dotIn_returns[OF this, of c] that show ?thesis by blast
qed

lemma join_loop_spec:
  "orders_agree lc ks \<Longrightarrow> set ts \<subseteq> set ks \<Longrightarrow> set os \<subseteq> set ks \<Longrightarrow> sorted_wrt (<) ts \<Longrightarrow> sorted_wrt (<) os \<Longrightarrow>
     \<exists>ds'. join_loop lc tc oc ods ts os ds = Inr ds' \<and>
           map_of ds' = join_entry tc oc ods (set ts) (set os) (map_of ds)"
proof (induction lc tc oc ods ts os ds rule: join_loop.induct)
  case (1 lc tc oc ods ds)
  then show ?case by (auto simp: join_entry_def)
next
  case (2 lc tc oc ods t ts ds)
  have agree: "orders_agree lc ks" by fact
  from "2.prems" have tk: "t \<in> set ks" by simp
  from dotIn_bool[OF orders_agree_parses[OF agree tk], of oc] obtain known where
    kn: "dotIn oc (DotString t) = Inr known" .
  let ?ds1 = "if known then AList.delete t ds else ds"
  from "2.prems" have tn: "t \<notin> set ts" by auto
  from "2.IH"[OF kn] "2.prems" obtain ds' where
    r: "join_loop lc tc oc ods ts [] ?ds1 = Inr ds'"
    and m: "map_of ds' = join_entry tc oc ods (set ts) {} (map_of ?ds1)"
    using agree by auto
  have "map_of ds' = join_entry tc oc ods (set (t # ts)) {} (map_of ds)"
    using m tn kn by (auto simp: join_entry_def fun_eq_iff delete_conv')
  with r kn show ?case by simp
next
  case (3 lc tc oc ods o' os ds)
  have agree: "orders_agree lc ks" by fact
  from "3.prems" have ok: "o' \<in> set ks" by simp
  from dotIn_bool[OF orders_agree_parses[OF agree ok], of tc] obtain known where
    kn: "dotIn tc (DotString o') = Inr known" .
  let ?ds1 = "if \<not> known then AList.update o' (Map_get ods o') ds else ds"
  from "3.prems" have on: "o' \<notin> set os" by auto
  from "3.IH"[OF kn] "3.prems" obtain ds' where
    r: "join_loop lc tc oc ods [] os ?ds1 = Inr ds'"
    and m: "map_of ds' = join_entry tc oc ods {} (set os) (map_of ?ds1)"
    using agree by auto
  have "map_of ds' = join_entry tc oc ods {} (set (o' # os)) (map_of ds)"
    using m on kn by (auto simp: join_entry_def fun_eq_iff update_conv')
  with r kn show ?case by simp
next
  case (4 lc tc oc ods t ts o' os ds)
  have agree: "orders_agree lc ks" by fact
  from "4.prems" have tk: "t \<in> set ks" and ok: "o' \<in> set ks" by simp_all
  from "4.prems" have tn: "t \<notin> set ts" and on: "o' \<notin> set os"
    and tlt: "\<forall>x \<in> set ts. t < x" and olt: "\<forall>x \<in> set os. o' < x" by auto
  from dotIn_bool[OF orders_agree_parses[OF agree tk], of oc] obtain kt where
    kt: "dotIn oc (DotString t) = Inr kt" .
  from dotIn_bool[OF orders_agree_parses[OF agree ok], of tc] obtain ko where
    ko: "dotIn tc (DotString o') = Inr ko" .
  from orders_agree_compare[OF agree ok tk] obtain c where
    c: "compare lc (DotString o') (DotString t) = Inr c" "c < 0 \<longleftrightarrow> o' < t" "c = 0 \<longleftrightarrow> o' = t" .
  show ?case
  proof (cases "t < o'")
    case True
    then have lt: "js_lt t o'" by (simp add: js_lt_iff_less)
    let ?ds1 = "if kt then AList.delete t ds else ds"
    from "4.IH"(1)[OF lt kt] "4.prems" agree obtain ds' where
      r: "join_loop lc tc oc ods ts (o' # os) ?ds1 = Inr ds'"
      and m: "map_of ds' = join_entry tc oc ods (set ts) (set (o' # os)) (map_of ?ds1)"
      by auto
    have t_not_os: "t \<notin> set (o' # os)" using True olt by auto
    have "map_of ds' = join_entry tc oc ods (set (t # ts)) (set (o' # os)) (map_of ds)"
      unfolding m using tn t_not_os kt
      by (auto simp: join_entry_def fun_eq_iff delete_conv')
    with r kt lt show ?thesis by simp
  next
    case False
    then have nlt: "\<not> js_lt t o'" by (simp add: js_lt_iff_less)
    show ?thesis
    proof (cases "o' < t")
      case True
      with c have c0: "c < 0" by simp
      let ?ds1 = "if \<not> ko then AList.update o' (Map_get ods o') ds else ds"
      from "4.IH"(2)[OF nlt c(1) c0 ko] "4.prems" agree obtain ds' where
        r: "join_loop lc tc oc ods (t # ts) os ?ds1 = Inr ds'"
        and m: "map_of ds' = join_entry tc oc ods (set (t # ts)) (set os) (map_of ?ds1)"
        by auto
      have o_not_ts: "o' \<notin> set (t # ts)" using True tlt by auto
      have "map_of ds' = join_entry tc oc ods (set (t # ts)) (set (o' # os)) (map_of ds)"
        unfolding m using on o_not_ts ko
        by (auto simp: join_entry_def fun_eq_iff update_conv')
      with r ko nlt c c0 show ?thesis by simp
    next
      case nlt': False
      with False have eq: "t = o'" by simp
      with c have c0: "\<not> c < 0" by simp
      from "4.IH"(3)[OF nlt c(1) c0] "4.prems" agree obtain ds' where
        r: "join_loop lc tc oc ods ts os ds = Inr ds'"
        and m: "map_of ds' = join_entry tc oc ods (set ts) (set os) (map_of ds)"
        by auto
      have "map_of ds' = join_entry tc oc ods (set (t # ts)) (set (o' # os)) (map_of ds)"
        unfolding m using tn on eq
        by (auto simp: join_entry_def fun_eq_iff)
      with r nlt c c0 show ?thesis by simp
    qed
  qed
qed


section \<open>Membership after compaction\<close>

lemma canonical_cloud_entry:
  assumes "canonical_cloud dc" "s \<in> dc" "fromString s = Inr d"
  shows "dot_toString d = s"
  using assms by (auto simp: canonical_cloud_def)

lemma toString_in_cloud_eq:
  assumes "canonical_cloud dc" "dot_toString d \<in> dc" "fromString (dot_toString d) = Inr d0"
  shows "d0 = d"
  using fromString_toString_inj[OF assms(3)] .

lemma covers_update_other:
  "dot_id d \<noteq> i \<Longrightarrow> covers (AList.update i v cc) d = covers cc d"
  by (simp add: covers_def update_conv')

lemma covers_update_same:
  "dot_id d = i \<Longrightarrow> covers (AList.update i v cc) d \<longleftrightarrow> counter d \<le> v"
  by (simp add: covers_def update_conv')

lemma held_absorb_first:
  assumes can: "canonical_cloud dc" and s: "s \<in> dc" and p: "fromString s = Inr d0"
    and one: "counter d0 = 1" and none: "map_of cc (dot_id d0) = None"
  shows "held (AList.update (dot_id d0) 1 cc) dc d \<longleftrightarrow> held cc dc d"
proof -
  from canonical_cloud_entry[OF can s p] have s_eq: "dot_toString d0 = s" .
  have d0: "d0 = Dot (dot_id d0) 1" using one by (cases d0) simp
  show ?thesis
  proof (cases "dot_id d = dot_id d0")
    case False
    then show ?thesis
      by (simp add: held_def covers_update_other update_conv')
  next
    case True
    have in_dc: "dot_toString (Dot (dot_id d) 1) \<in> dc" using True d0 s_eq s by metis
    have nc: "\<not> covers cc d" using none True by (simp add: covers_def)
    have "held (AList.update (dot_id d0) 1 cc) dc d \<longleftrightarrow> counter d \<le> 1 \<or> dot_toString d \<in> dc"
      using True by (auto simp: held_def covers_update_same update_conv')
    moreover have "held cc dc d \<longleftrightarrow> dot_toString d \<in> dc \<or> counter d \<le> 0"
      using nc none True in_dc by (auto simp: held_def)
    moreover have "counter d = 1 \<Longrightarrow> dot_toString d \<in> dc"
    proof -
      assume "counter d = 1"
      then have "d = Dot (dot_id d) 1" by (cases d) simp
      with in_dc show ?thesis by simp
    qed
    moreover have "counter d \<le> 1 \<longleftrightarrow> counter d \<le> 0 \<or> counter d = 1" by arith
    ultimately show ?thesis by blast
  qed
qed

lemma held_absorb_next:
  assumes can: "canonical_cloud dc" and s: "s \<in> dc" and p: "fromString s = Inr d0"
    and nxt: "counter d0 = k + 1" and some: "map_of cc (dot_id d0) = Some k"
  shows "held (AList.update (dot_id d0) (k + 1) cc) dc d \<longleftrightarrow> held cc dc d"
proof -
  from canonical_cloud_entry[OF can s p] have s_eq: "dot_toString d0 = s" .
  have d0: "d0 = Dot (dot_id d0) (k + 1)" using nxt by (cases d0) simp
  show ?thesis
  proof (cases "dot_id d = dot_id d0")
    case False
    then show ?thesis
      by (simp add: held_def covers_update_other update_conv')
  next
    case True
    have cov: "covers cc d \<longleftrightarrow> counter d \<le> k" using some True by (simp add: covers_def)
    have "held (AList.update (dot_id d0) (k + 1) cc) dc d \<longleftrightarrow>
            counter d \<le> k + 1 \<or> dot_toString d \<in> dc"
      using True by (auto simp: held_def covers_update_same update_conv')
    moreover have "held cc dc d \<longleftrightarrow> counter d \<le> k \<or> dot_toString d \<in> dc"
      using cov some True by (auto simp: held_def)
    moreover have "counter d = k + 1 \<Longrightarrow> dot_toString d \<in> dc"
    proof -
      assume "counter d = k + 1"
      then have "d = Dot (dot_id d) (k + 1)" by (cases d) simp
      with True d0 s_eq s show ?thesis by metis
    qed
    moreover have "counter d \<le> k + 1 \<longleftrightarrow> counter d \<le> k \<or> counter d = k + 1" by arith
    ultimately show ?thesis by blast
  qed
qed

lemma compact_pass_held:
  assumes can: "canonical_cloud dc"
  shows "set rest \<subseteq> dc \<Longrightarrow> compact_pass rest cc del flag = Inr (cc', del', flag') \<Longrightarrow>
         held cc' dc d \<longleftrightarrow> held cc dc d"
proof (induction rest arbitrary: cc del flag)
  case Nil
  then show ?case by simp
next
  case (Cons s rest)
  from Cons.prems have s: "s \<in> dc" and sub: "set rest \<subseteq> dc" by simp_all
  from Cons.prems(2) obtain d0 where p: "fromString s = Inr d0"
    by (auto split: sum.splits)
  show ?case
  proof (cases "map_of cc (dot_id d0)")
    case None
    show ?thesis
    proof (cases "counter d0 = 1")
      case True
      let ?cc1 = "AList.update (dot_id d0) 1 cc"
      from Cons.prems(2) p None True
      have r: "compact_pass rest ?cc1 (del @ [s]) True = Inr (cc', del', flag')" by simp
      from Cons.IH[OF sub r] held_absorb_first[OF can s p True None, of d]
      show ?thesis by simp
    next
      case False
      with Cons.prems(2) p None
      have r: "compact_pass rest cc del flag = Inr (cc', del', flag')" by simp
      from Cons.IH[OF sub r] show ?thesis .
    qed
  next
    case (Some k)
    consider "counter d0 = k + 1" | "counter d0 \<le> k" | "k + 1 < counter d0" by linarith
    then show ?thesis
    proof cases
      case 1
      let ?cc1 = "AList.update (dot_id d0) (k + 1) cc"
      from Cons.prems(2) p Some 1
      have r: "compact_pass rest ?cc1 (del @ [s]) True = Inr (cc', del', flag')" by simp
      from Cons.IH[OF sub r] held_absorb_next[OF can s p 1 Some, of d]
      show ?thesis by simp
    next
      case 2
      with Cons.prems(2) p Some
      have r: "compact_pass rest cc (del @ [s]) flag = Inr (cc', del', flag')" by simp
      from Cons.IH[OF sub r] show ?thesis .
    next
      case 3
      with Cons.prems(2) p Some
      have r: "compact_pass rest cc del flag = Inr (cc', del', flag')" by simp
      from Cons.IH[OF sub r] show ?thesis .
    qed
  qed
qed

lemma held_without_covered:
  assumes del: "\<forall>s \<in> D. \<exists>d0. fromString s = Inr d0 \<and> covers cc d0"
  shows "held cc (dc - D) d \<longleftrightarrow> held cc dc d"
proof -
  have a: "dot_toString d \<in> dc \<Longrightarrow> dot_toString d \<in> D \<Longrightarrow> covers cc d"
  proof -
    assume "dot_toString d \<in> D"
    with del obtain d0 where "fromString (dot_toString d) = Inr d0" "covers cc d0" by blast
    with fromString_toString_inj[of d d0] show ?thesis by simp
  qed
  have b: "map_of cc (dot_id d) = None \<Longrightarrow> dot_toString (Dot (dot_id d) 1) \<in> D \<Longrightarrow> False"
  proof -
    assume n: "map_of cc (dot_id d) = None" and "dot_toString (Dot (dot_id d) 1) \<in> D"
    with del obtain d0 where "fromString (dot_toString (Dot (dot_id d) 1)) = Inr d0" "covers cc d0"
      by blast
    with fromString_toString_inj[of "Dot (dot_id d) 1" d0] have "covers cc (Dot (dot_id d) 1)"
      by simp
    with n show False by (simp add: covers_def)
  qed
  show ?thesis
    unfolding held_def using a b by blast
qed

lemma compact_members:
  "canonical_cloud (set (dotCloud ctx)) \<Longrightarrow> compact ctx = Inr ctx' \<Longrightarrow>
   (covers (compactCausalContext ctx') d \<or> dot_toString d \<in> set (dotCloud ctx')) \<longleftrightarrow>
   held (compactCausalContext ctx) (set (dotCloud ctx)) d"
proof (induction ctx rule: compact.induct)
  case (1 ctx)
  let ?dc = "set (dotCloud ctx)"
  from "1.prems"(2) obtain cc del flag where
    p: "compact_pass (dotCloud ctx) (compactCausalContext ctx) [] False = Inr (cc, del, flag)"
    by (subst (asm) compact.simps) (auto split: sum.splits)
  let ?next = "\<lparr>compactCausalContext = cc, dotCloud = fold Set_delete del (dotCloud ctx)\<rparr>"
  have dcn: "set (dotCloud ?next) = ?dc - set del" by (auto simp: fold_Set_delete)
  from compact_pass_mono[OF p]
  have del: "\<forall>s \<in> set del. \<exists>d0. fromString s = Inr d0 \<and> covers cc d0" by auto
  have h1: "held cc ?dc d \<longleftrightarrow> held (compactCausalContext ctx) ?dc d"
    by (rule compact_pass_held[OF "1.prems"(1) _ p]) simp
  have h2: "held cc (?dc - set del) d \<longleftrightarrow> held cc ?dc d"
    by (rule held_without_covered[OF del])
  have can': "canonical_cloud (set (dotCloud ?next))"
    using "1.prems"(1) unfolding dcn canonical_cloud_def by blast
  show ?case
  proof (cases flag)
    case True
    from "1.prems"(2) p True have c: "compact ?next = Inr ctx'"
      by (subst (asm) compact.simps) simp
    from "1.IH"[OF p refl refl refl True can' c] h1 h2 dcn show ?thesis by simp
  next
    case False
    from "1.prems"(2) p False have ctx': "ctx' = ?next"
      by (subst (asm) compact.simps) simp
    from p False compact_pass_quiet[of "dotCloud ctx" "compactCausalContext ctx" "[]" False cc del]
    have cc: "cc = compactCausalContext ctx"
      and q: "\<forall>s \<in> ?dc. s \<notin> set del \<longrightarrow>
      (\<exists>d0. fromString s = Inr d0 \<and>
           (case map_of (compactCausalContext ctx) (dot_id d0) of None \<Rightarrow> counter d0 \<noteq> 1
            | Some k \<Rightarrow> k + 1 < counter d0))"
      by auto
    have no_extra: "\<not> (map_of cc (dot_id d) = None \<and> dot_toString (Dot (dot_id d) 1) \<in> ?dc - set del)"
    proof
      assume a: "map_of cc (dot_id d) = None \<and> dot_toString (Dot (dot_id d) 1) \<in> ?dc - set del"
      with q obtain d0 where d0: "fromString (dot_toString (Dot (dot_id d) 1)) = Inr d0"
        "case map_of (compactCausalContext ctx) (dot_id d0) of None \<Rightarrow> counter d0 \<noteq> 1
            | Some k \<Rightarrow> k + 1 < counter d0" by blast
      from fromString_toString_inj[OF d0(1)] have "d0 = Dot (dot_id d) 1" .
      with d0(2) a cc show False by simp
    qed
    have "(covers cc d \<or> dot_toString d \<in> ?dc - set del) \<longleftrightarrow> held cc (?dc - set del) d"
      using no_extra by (auto simp: held_def)
    with h1 h2 dcn show ?thesis by (simp add: ctx')
  qed
qed

lemma map_of_join_cc_entry:
  "map_of (join_cc_entry (j, w) a) i =
     (if i = j then Some (case map_of a j of None \<Rightarrow> w | Some x \<Rightarrow> max x w) else map_of a i)"
  by (simp add: join_cc_entry_def update_conv')

lemma map_of_fold_join_cc_entry:
  "distinct (map fst b) \<Longrightarrow>
   map_of (fold join_cc_entry b a) i =
     (case map_of b i of
        None \<Rightarrow> map_of a i
      | Some y \<Rightarrow> Some (case map_of a i of None \<Rightarrow> y | Some x \<Rightarrow> max x y))"
proof (induction b arbitrary: a)
  case Nil
  then show ?case by simp
next
  case (Cons e b)
  obtain j w where e: "e = (j, w)" by (cases e)
  from Cons.prems e have d: "distinct (map fst b)" and nj: "j \<notin> fst ` set b" by auto
  from nj have mj: "map_of b j = None" by (simp add: map_of_eq_None_iff)
  show ?case
    using Cons.IH[OF d, of "join_cc_entry (j, w) a"] mj
    by (auto simp: e map_of_join_cc_entry split: option.splits)
qed

lemma map_of_join_cc_commute:
  assumes "distinct (map fst a)" "distinct (map fst b)"
  shows "map_of (join_cc a b) = map_of (join_cc b a)"
proof
  fix i
  show "map_of (join_cc a b) i = map_of (join_cc b a) i"
    unfolding join_cc_def
    by (simp add: map_of_fold_join_cc_entry[OF assms(1)] map_of_fold_join_cc_entry[OF assms(2)]
        max.commute split: option.splits)
qed

lemma covers_cong: "map_of cc = map_of cc' \<Longrightarrow> covers cc d = covers cc' d"
  by (simp add: covers_def)

lemma held_cong: "map_of cc = map_of cc' \<Longrightarrow> held cc dc d = held cc' dc d"
  by (simp add: held_def covers_def)

lemma canonical_cloud_fixed:
  assumes "canonical_cloud (set ks)"
  shows "canonical ` set ks = set ks"
proof -
  have "\<And>s. s \<in> set ks \<Longrightarrow> canonical s = s"
    using assms by (auto simp: canonical_cloud_def canonical_def)
  then show ?thesis by force
qed

lemma canonical_cloud_parses:
  "canonical_cloud (set ks) \<Longrightarrow> \<forall>k \<in> set ks. \<not> isl (fromString k)"
  by (auto simp: canonical_cloud_def)

text \<open>Membership after a context join, for canonical clouds.\<close>

lemma DotContext_join_members:
  assumes ca: "canonical_cloud (set (dotCloud a))" and cb: "canonical_cloud (set (dotCloud b))"
  shows "\<exists>c. DotContext_join a b = Inr c \<and>
     (\<forall>d. (covers (compactCausalContext c) d \<or> dot_toString d \<in> set (dotCloud c)) \<longleftrightarrow>
          held (join_cc (compactCausalContext a) (compactCausalContext b))
               (set (dotCloud a) \<union> set (dotCloud b)) d)"
proof -
  let ?a1 = "a\<lparr>compactCausalContext := join_cc (compactCausalContext a) (compactCausalContext b)\<rparr>"
  from join_cloud_spec[OF canonical_cloud_parses[OF cb], of ?a1] obtain c1 where
    c1: "join_cloud ?a1 (dotCloud b) = Inr c1"
    and cc1: "compactCausalContext c1 = join_cc (compactCausalContext a) (compactCausalContext b)"
    and dc1: "set (dotCloud c1) = set (dotCloud a) \<union> canonical ` set (dotCloud b)"
    by auto
  from dc1 canonical_cloud_fixed[OF cb]
  have dc1': "set (dotCloud c1) = set (dotCloud a) \<union> set (dotCloud b)" by simp
  have can1: "canonical_cloud (set (dotCloud c1))"
    using ca cb unfolding dc1' canonical_cloud_def by blast
  then have "cloud_parses c1" by (auto simp: cloud_parses_def canonical_cloud_def)
  from compact_returns_parses[OF this] obtain c where c: "compact c1 = Inr c" by blast
  from compact_members[OF can1 c] cc1 dc1' c1 c show ?thesis
    by (auto simp: DotContext_join_def)
qed

lemma dotIn_members:
  assumes "\<forall>d. (covers (compactCausalContext c) d \<or> dot_toString d \<in> set (dotCloud c)) \<longleftrightarrow>
               (covers (compactCausalContext c') d \<or> dot_toString d \<in> set (dotCloud c'))"
  shows "dotIn c x = dotIn c' x"
proof (cases "toDot x")
  case (Inl e)
  then show ?thesis by (simp add: dotIn_def)
next
  case (Inr d)
  have "dotIn c x = Inr (covers (compactCausalContext c) d \<or> dot_toString d \<in> set (dotCloud c))"
    using Inr by (auto simp: dotIn_def covers_def split: option.splits)
  moreover have "dotIn c' x = Inr (covers (compactCausalContext c') d \<or> dot_toString d \<in> set (dotCloud c'))"
    using Inr by (auto simp: dotIn_def covers_def split: option.splits)
  ultimately show ?thesis using assms by simp
qed

lemma DotContext_join_symmetric:
  assumes ca: "canonical_cloud (set (dotCloud a))" and cb: "canonical_cloud (set (dotCloud b))"
    and da: "distinct (map fst (compactCausalContext a))"
    and db: "distinct (map fst (compactCausalContext b))"
  shows "\<exists>cab cba. DotContext_join a b = Inr cab \<and> DotContext_join b a = Inr cba \<and>
           (\<forall>x. dotIn cab x = dotIn cba x)"
proof -
  from DotContext_join_members[OF ca cb] obtain cab where
    ab: "DotContext_join a b = Inr cab"
    and mab: "\<forall>d. (covers (compactCausalContext cab) d \<or> dot_toString d \<in> set (dotCloud cab)) \<longleftrightarrow>
          held (join_cc (compactCausalContext a) (compactCausalContext b))
               (set (dotCloud a) \<union> set (dotCloud b)) d" by blast
  from DotContext_join_members[OF cb ca] obtain cba where
    ba: "DotContext_join b a = Inr cba"
    and mba: "\<forall>d. (covers (compactCausalContext cba) d \<or> dot_toString d \<in> set (dotCloud cba)) \<longleftrightarrow>
          held (join_cc (compactCausalContext b) (compactCausalContext a))
               (set (dotCloud b) \<union> set (dotCloud a)) d" by blast
  have "\<And>d. held (join_cc (compactCausalContext a) (compactCausalContext b))
               (set (dotCloud a) \<union> set (dotCloud b)) d =
             held (join_cc (compactCausalContext b) (compactCausalContext a))
               (set (dotCloud b) \<union> set (dotCloud a)) d"
    using held_cong[OF map_of_join_cc_commute[OF da db]] by (simp add: Un_commute)
  with mab mba have "\<forall>d. (covers (compactCausalContext cab) d \<or> dot_toString d \<in> set (dotCloud cab)) \<longleftrightarrow>
               (covers (compactCausalContext cba) d \<or> dot_toString d \<in> set (dotCloud cba))"
    by simp
  from dotIn_members[OF this] ab ba show ?thesis by blast
qed


section \<open>Commutativity of the kernel join\<close>

lemma orders_agree_subset:
  "orders_agree lc ks \<Longrightarrow> set xs \<subseteq> set ks \<Longrightarrow> orders_agree lc xs"
  unfolding orders_agree_def by blast

lemma join_clone_effect:
  assumes oa: "owns_context h a" and ob: "owns_context h b" and ne: "a \<noteq> b"
    and da: "distinct (map fst (dataStorage (kernels h ! a)))"
    and db: "distinct (map fst (dataStorage (kernels h ! b)))"
    and wa: "wf_context (contexts h ! sharedContext (kernels h ! a))"
    and wb: "wf_context (contexts h ! sharedContext (kernels h ! b))"
    and agree: "orders_agree lc (map fst (dataStorage (kernels h ! a))
                                 @ map fst (dataStorage (kernels h ! b)))"
  shows "\<exists>ds' c'.
     joined_storage lc h a b = Inr ds' \<and>
     map_of ds' = join_entry (contexts h ! sharedContext (kernels h ! a))
                    (contexts h ! sharedContext (kernels h ! b))
                    (dataStorage (kernels h ! b))
                    (fst ` set (dataStorage (kernels h ! a)))
                    (fst ` set (dataStorage (kernels h ! b)))
                    (map_of (dataStorage (kernels h ! a))) \<and>
     joined_context lc h a b = Inr c' \<and>
     DotContext_join (contexts h ! sharedContext (kernels h ! a))
                     (contexts h ! sharedContext (kernels h ! b)) = Inr c'"
proof -
  let ?A = "kernels h ! a" and ?B = "kernels h ! b"
  let ?cA = "contexts h ! sharedContext ?A" and ?cB = "contexts h ! sharedContext ?B"
  let ?ka = "map fst (dataStorage ?A)" and ?kb = "map fst (dataStorage ?B)"
  let ?n = "length (contexts h)" and ?m = "length (kernels h)"
  from oa have a: "a < ?m" and sa: "sharedContext ?A = contextBase ?A" and ba: "contextBase ?A < ?n"
    by (simp_all add: owns_context_def)
  from ob have b: "b < ?m" and sb: "sharedContext ?B = contextBase ?B" and bb: "contextBase ?B < ?n"
    by (simp_all add: owns_context_def)
  let ?A' = "\<lparr>dataStorage = dataStorage ?A, sharedContext = ?n, contextBase = ?n\<rparr>"
  let ?h1 = "\<lparr>contexts = contexts h @ [?cA], kernels = kernels h @ [?A']\<rparr>"
  have clone: "DotKernel_clone h a = Inr (?m, ?h1)"
    using a sa ba by (simp add: DotKernel_clone_def get_kernel_def get_context_def
        alloc_context_def alloc_kernel_def)
  have sorta: "sort_dots lc ?ka = Inr (sort ?ka)"
    by (rule sort_dots_eq_sort[OF agree]) simp
  have sortb: "sort_dots lc ?kb = Inr (sort ?kb)"
    by (rule sort_dots_eq_sort[OF agree]) simp
  have "\<exists>ds'. join_loop lc ?cA ?cB (dataStorage ?B) (sort ?ka) (sort ?kb) (dataStorage ?A) = Inr ds' \<and>
           map_of ds' = join_entry ?cA ?cB (dataStorage ?B) (set (sort ?ka)) (set (sort ?kb))
                          (map_of (dataStorage ?A))"
  proof (rule join_loop_spec[OF agree])
    show "set (sort ?ka) \<subseteq> set (?ka @ ?kb)" by simp
    show "set (sort ?kb) \<subseteq> set (?ka @ ?kb)" by simp
    show "sorted_wrt (<) (sort ?ka)" using da by (simp add: strict_sorted_iff)
    show "sorted_wrt (<) (sort ?kb)" using db by (simp add: strict_sorted_iff)
  qed
  then obtain ds' where loop: "join_loop lc ?cA ?cB (dataStorage ?B) (sort ?ka) (sort ?kb)
                                 (dataStorage ?A) = Inr ds'"
    and m: "map_of ds' = join_entry ?cA ?cB (dataStorage ?B) (fst ` set (dataStorage ?A))
                           (fst ` set (dataStorage ?B)) (map_of (dataStorage ?A))"
    by auto
  from wa wb DotContext_join_members[of ?cA ?cB] obtain c' where
    cj: "DotContext_join ?cA ?cB = Inr c'"
    by (auto simp: wf_context_def)
  let ?h2 = "\<lparr>contexts = contexts h @ [c'], kernels = kernels h @ [?A'\<lparr>dataStorage := ds'\<rparr>]\<rparr>"
  have neq: "?n \<noteq> sharedContext ?B" using sb bb by simp
  have join: "DotKernel_join lc ?h1 ?m b = Inr ?h2"
    using a b sa sb ba bb sorta sortb loop cj neq
    by (simp add: DotKernel_join_def get_kernel_def get_context_def nth_append
        DotContext_join_ref_def set_kernel_def set_context_def)
  have jc: "join_clone lc h a b = Inr (?m, ?h2)"
    using clone join by (simp add: join_clone_def)
  have "joined_storage lc h a b = Inr ds'"
    using jc by (simp add: joined_storage_def get_kernel_def)
  moreover have "joined_context lc h a b = Inr c'"
    using jc by (simp add: joined_context_def get_kernel_def get_context_def)
  ultimately show ?thesis using m cj by blast
qed

lemma join_entry_commute:
  assumes "values_agree dsA dsB"
  shows "join_entry cA cB dsB (fst ` set dsA) (fst ` set dsB) (map_of dsA) =
         join_entry cB cA dsA (fst ` set dsB) (fst ` set dsA) (map_of dsB)"
proof
  fix k
  have inA: "k \<in> fst ` set dsA \<Longrightarrow> Some (Map_get dsA k) = map_of dsA k"
    by (auto simp: Map_get_def map_of_eq_None_iff split: option.splits)
  have inB: "k \<in> fst ` set dsB \<Longrightarrow> Some (Map_get dsB k) = map_of dsB k"
    by (auto simp: Map_get_def map_of_eq_None_iff split: option.splits)
  have nA: "k \<notin> fst ` set dsA \<Longrightarrow> map_of dsA k = None" by (simp add: map_of_eq_None_iff)
  have nB: "k \<notin> fst ` set dsB \<Longrightarrow> map_of dsB k = None" by (simp add: map_of_eq_None_iff)
  have both: "k \<in> fst ` set dsA \<Longrightarrow> k \<in> fst ` set dsB \<Longrightarrow> map_of dsA k = map_of dsB k"
    using assms by (simp add: values_agree_def)
  show "join_entry cA cB dsB (fst ` set dsA) (fst ` set dsB) (map_of dsA) k =
        join_entry cB cA dsA (fst ` set dsB) (fst ` set dsA) (map_of dsB) k"
    using inA inB nA nB both by (auto simp: join_entry_def)
qed


text \<open>
  C2. The claim: for all kernels \<open>A\<close> and \<open>B\<close> with well-formed dots and anchored storage,
  joining a clone of \<open>A\<close> with \<open>B\<close> and joining a clone of \<open>B\<close> with \<open>A\<close> give equal
  storage contents and contexts with the same members. The two kernels below own their
  contexts and hold the well-formed dots \<open>a:2\<close> and \<open>a:10\<close>, each anchored in its own
  context, and no dot in common. The clone of \<open>B\<close> joined with \<open>A\<close> follows the
  observed-remove rule: \<open>a:10\<close> stays, and \<open>a:2\<close>, which \<open>B\<close>'s context contains, is not
  taken over. The clone of \<open>A\<close> joined with \<open>B\<close> meets the two comparisons of the merge
  loop that disagree on \<open>a:2\<close> and \<open>a:10\<close> (claim C1): the loop takes the two dots for one
  dot held by both sides, so \<open>a:2\<close> stays and \<open>a:10\<close> is not copied. The two storages
  differ, whatever \<open>localeCompare\<close> is; the two contexts are equal.
\<close>

theorem join_of_clones_depends_on_order:
  "fromString ''a:2'' = Inr (Dot ''a'' 2) \<and> fromString ''a:10'' = Inr (Dot ''a'' 10) \<and>
   owns_context two_kernels 0 \<and> owns_context two_kernels 1 \<and>
   dotIn (contexts two_kernels ! 0) (DotString ''a:2'') = Inr True \<and>
   dotIn (contexts two_kernels ! 1) (DotString ''a:10'') = Inr True \<and>
   joined_storage lc two_kernels 0 1 = Inr [(''a:2'', Str ''x'')] \<and>
   joined_storage lc two_kernels 1 0 = Inr [(''a:10'', Str ''y'')] \<and>
   joined_context lc two_kernels 0 1
     = Inr \<lparr>compactCausalContext = [(''a'', 10)], dotCloud = []\<rparr> \<and>
   joined_context lc two_kernels 1 0
     = Inr \<lparr>compactCausalContext = [(''a'', 10)], dotCloud = []\<rparr>"
  by code_simp

text \<open>
  Where \<open>Dot.compare\<close> and the string comparison order the keys of both kernels alike the
  two directions agree. Let \<open>A\<close> and \<open>B\<close> be two distinct kernels that own their contexts,
  with distinct storage keys and well-formed contexts, whose common dots carry equal
  values. Then joining a clone of \<open>A\<close> with \<open>B\<close> and joining a clone of \<open>B\<close> with \<open>A\<close> both
  return, the two storages hold the same entries, and the two contexts answer \<open>dotIn\<close>
  alike for every dot.
\<close>

lemma join_commutes:
  assumes oa: "owns_context h a" and ob: "owns_context h b" and ne: "a \<noteq> b"
    and da: "distinct (map fst (dataStorage (kernels h ! a)))"
    and db: "distinct (map fst (dataStorage (kernels h ! b)))"
    and wa: "wf_context (contexts h ! sharedContext (kernels h ! a))"
    and wb: "wf_context (contexts h ! sharedContext (kernels h ! b))"
    and agree: "orders_agree lc (map fst (dataStorage (kernels h ! a))
                                 @ map fst (dataStorage (kernels h ! b)))"
    and va: "values_agree (dataStorage (kernels h ! a)) (dataStorage (kernels h ! b))"
  shows "\<exists>sab sba cab cba.
     joined_storage lc h a b = Inr sab \<and> joined_storage lc h b a = Inr sba \<and>
     map_of sab = map_of sba \<and>
     joined_context lc h a b = Inr cab \<and> joined_context lc h b a = Inr cba \<and>
     same_members cab cba"
proof -
  let ?A = "kernels h ! a" and ?B = "kernels h ! b"
  let ?cA = "contexts h ! sharedContext ?A" and ?cB = "contexts h ! sharedContext ?B"
  have agree': "orders_agree lc (map fst (dataStorage ?B) @ map fst (dataStorage ?A))"
    by (rule orders_agree_subset[OF agree]) auto
  from join_clone_effect[OF oa ob ne da db wa wb agree] obtain sab cab where
    ab: "joined_storage lc h a b = Inr sab"
    "map_of sab = join_entry ?cA ?cB (dataStorage ?B) (fst ` set (dataStorage ?A))
                    (fst ` set (dataStorage ?B)) (map_of (dataStorage ?A))"
    "joined_context lc h a b = Inr cab" "DotContext_join ?cA ?cB = Inr cab" by blast
  from join_clone_effect[OF ob oa ne[symmetric] db da wb wa agree'] obtain sba cba where
    ba: "joined_storage lc h b a = Inr sba"
    "map_of sba = join_entry ?cB ?cA (dataStorage ?A) (fst ` set (dataStorage ?B))
                    (fst ` set (dataStorage ?A)) (map_of (dataStorage ?B))"
    "joined_context lc h b a = Inr cba" "DotContext_join ?cB ?cA = Inr cba" by blast
  have "map_of sab = map_of sba"
    using ab(2) ba(2) join_entry_commute[OF va] by simp
  moreover from wa wb DotContext_join_symmetric[of ?cA ?cB] ab(4) ba(4)
  have "same_members cab cba" by (auto simp: wf_context_def same_members_def)
  ultimately show ?thesis using ab(1,3) ba(1,3) by blast
qed


lemma join_commutes_on_replicas:
  "owns_context replicas_heap 0 \<and> owns_context replicas_heap 1 \<and> (0::nat) \<noteq> 1 \<and>
   distinct (map fst (dataStorage (kernels replicas_heap ! 0))) \<and>
   distinct (map fst (dataStorage (kernels replicas_heap ! 1))) \<and>
   wf_context (contexts replicas_heap ! sharedContext (kernels replicas_heap ! 0)) \<and>
   wf_context (contexts replicas_heap ! sharedContext (kernels replicas_heap ! 1)) \<and>
   orders_agree ordinalCompare
     (map fst (dataStorage (kernels replicas_heap ! 0))
      @ map fst (dataStorage (kernels replicas_heap ! 1))) \<and>
   values_agree (dataStorage (kernels replicas_heap ! 0))
     (dataStorage (kernels replicas_heap ! 1)) \<and>
   joined_storage ordinalCompare replicas_heap 0 1
     = Inr [(''a:1'', Str ''x''), (''a:2'', Str ''y''), (''b:1'', Str ''z'')] \<and>
   joined_storage ordinalCompare replicas_heap 1 0
     = Inr [(''b:1'', Str ''z''), (''a:1'', Str ''x''), (''a:2'', Str ''y'')] \<and>
   map_of [(''a:1'', Str ''x''), (''a:2'', Str ''y''), (''b:1'', Str ''z'')]
     = map_of [(''b:1'', Str ''z''), (''a:1'', Str ''x''), (''a:2'', Str ''y'')] \<and>
   joined_context ordinalCompare replicas_heap 0 1
     = Inr \<lparr>compactCausalContext = [(''a'', 3), (''b'', 1)], dotCloud = []\<rparr> \<and>
   joined_context ordinalCompare replicas_heap 1 0
     = Inr \<lparr>compactCausalContext = [(''a'', 3), (''b'', 1)], dotCloud = []\<rparr> \<and>
   same_members \<lparr>compactCausalContext = [(''a'', 3), (''b'', 1)], dotCloud = []\<rparr>
     \<lparr>compactCausalContext = [(''a'', 3), (''b'', 1)], dotCloud = []\<rparr>"
proof -
  have oa: "owns_context replicas_heap 0" and ob: "owns_context replicas_heap 1" by code_simp+
  have ne: "(0::nat) \<noteq> 1" by simp
  have da: "distinct (map fst (dataStorage (kernels replicas_heap ! 0)))"
    and db: "distinct (map fst (dataStorage (kernels replicas_heap ! 1)))" by code_simp+
  have p3: "fromString ''a:3'' = Inr (Dot ''a'' 3)" by code_simp
  have t3: "dot_toString (Dot ''a'' 3) = ''a:3''" by code_simp
  have wa: "wf_context (contexts replicas_heap ! sharedContext (kernels replicas_heap ! 0))"
    by (simp add: wf_context_def canonical_cloud_def replicas_heap_def)
  have wb: "wf_context (contexts replicas_heap ! sharedContext (kernels replicas_heap ! 1))"
    using p3 t3 by (simp add: wf_context_def canonical_cloud_def replicas_heap_def)
  have agree: "orders_agree ordinalCompare
     (map fst (dataStorage (kernels replicas_heap ! 0))
      @ map fst (dataStorage (kernels replicas_heap ! 1)))" by code_simp
  have va: "values_agree (dataStorage (kernels replicas_heap ! 0))
     (dataStorage (kernels replicas_heap ! 1))" by code_simp
  have sab: "joined_storage ordinalCompare replicas_heap 0 1
     = Inr [(''a:1'', Str ''x''), (''a:2'', Str ''y''), (''b:1'', Str ''z'')]" by code_simp
  have sba: "joined_storage ordinalCompare replicas_heap 1 0
     = Inr [(''b:1'', Str ''z''), (''a:1'', Str ''x''), (''a:2'', Str ''y'')]" by code_simp
  have cab: "joined_context ordinalCompare replicas_heap 0 1
     = Inr \<lparr>compactCausalContext = [(''a'', 3), (''b'', 1)], dotCloud = []\<rparr>" by code_simp
  have cba: "joined_context ordinalCompare replicas_heap 1 0
     = Inr \<lparr>compactCausalContext = [(''a'', 3), (''b'', 1)], dotCloud = []\<rparr>" by code_simp
  from join_commutes[OF oa ob ne da db wa wb agree va] sab sba cab cba
  have "map_of [(''a:1'', Str ''x''), (''a:2'', Str ''y''), (''b:1'', Str ''z'')]
     = map_of [(''b:1'', Str ''z''), (''a:1'', Str ''x''), (''a:2'', Str ''y'')] \<and>
    same_members \<lparr>compactCausalContext = [(''a'', 3), (''b'', 1)], dotCloud = []\<rparr>
     \<lparr>compactCausalContext = [(''a'', 3), (''b'', 1)], dotCloud = []\<rparr>"
    by auto
  with oa ob ne da db wa wb agree va sab sba cab cba show ?thesis by blast
qed

end
